theory Spec2Isabelle
  imports Main "HOL-Library.Signed_Division"
begin

section \<open>Data model\<close>

text \<open>
  The diff-cut engine of package \<open>parser\<close>. Go's \<open>int\<close> is modelled as \<open>int\<close>: the
  counters of the engine are line numbers and line counts of one diff hunk, which are taken
  to stay below \<open>2\<^sup>6\<^sup>3\<close>, so that no addition wraps around. A Go string is a byte
  sequence, here a \<open>string\<close>. A runtime panic is a value of type \<open>panic\<close>, returned as
  \<open>Inl\<close>; a Go \<open>error\<close> result is an \<open>error option\<close> with \<open>None\<close> for \<open>nil\<close>.
\<close>

datatype error =
    ErrHunkNotFound       \<comment> \<open>\<open>types.ErrHunkNotFound\<close>\<close>
  | EOF                   \<comment> \<open>\<open>io.EOF\<close>\<close>
  | ErrRead string        \<comment> \<open>any other error of the underlying reader or scanner\<close>

datatype panic =
    MakesliceCapOutOfRange
  | IndexOutOfRange
  | DivideByZero

record HunkHeader =
  OldLine :: int
  OldSpan :: int
  NewLine :: int
  NewSpan :: int

record Hunk =
  HunkHeader :: HunkHeader
  Lines :: "string list"

record DiffCutParams =
  LineStart :: int
  LineStartNew :: bool
  LineEnd :: int
  LineEndNew :: bool
  BeforeLines :: int
  AfterLines :: int
  LineLimit :: int

text \<open>The zero values \<open>types.HunkHeader{}\<close> and \<open>types.Hunk{}\<close>.\<close>

definition zeroHunkHeader :: HunkHeader where
  "zeroHunkHeader = \<lparr>OldLine = 0, OldSpan = 0, NewLine = 0, NewSpan = 0\<rparr>"

definition zeroHunk :: Hunk where
  "zeroHunk = \<lparr>HunkHeader = zeroHunkHeader, Lines = []\<rparr>"

section \<open>The ring buffer \<open>strCircBuf\<close>\<close>

text \<open>
  \<open>entries\<close> is a Go slice: its capacity, fixed by \<open>make\<close>, is the field \<open>cap\<close>; its
  length is the length of the list. \<open>make\<close> panics for a negative capacity; memory is
  taken to be unbounded, so that every non-negative capacity can be allocated.
\<close>

record strCircBuf =
  head :: int
  entries :: "string list"
  cap :: int

definition newStrCircBuf :: "int \<Rightarrow> panic + strCircBuf" where
  "newStrCircBuf sz =
     (if sz < 0 then Inl MakesliceCapOutOfRange
      else Inr \<lparr>head = - 1, entries = [], cap = sz\<rparr>)"

definition push :: "string \<Rightarrow> strCircBuf \<Rightarrow> panic + strCircBuf" where
  "push s b =
     (let n = cap b in
      if n = 0 then Inr b
      else
        let b1 = b\<lparr>head := head b + 1\<rparr> in
        if int (length (entries b1)) < n then Inr (b1\<lparr>entries := entries b1 @ [s]\<rparr>)
        else
          let b2 = (if head b1 \<ge> n then b1\<lparr>head := 0\<rparr> else b1) in
          if 0 \<le> head b2 \<and> head b2 < int (length (entries b2))
          then Inr (b2\<lparr>entries := (entries b2)[nat (head b2) := s]\<rparr>)
          else Inl IndexOutOfRange)"

text \<open>
  The loop of \<open>lines\<close>: \<open>res[i] = b.entries[(b.head + 1 + i) % n]\<close> for \<open>i\<close> from 0 up
  to \<open>n\<close>. Go's \<open>%\<close> truncates towards zero (\<open>smod\<close>).
\<close>

function linesLoop :: "strCircBuf \<Rightarrow> int \<Rightarrow> int \<Rightarrow> string list \<Rightarrow> panic + string list" where
  "linesLoop b n i res =
     (if i < n then
        (if n = 0 then Inl DivideByZero
         else
           let idx = (head b + 1 + i) smod n in
           if 0 \<le> idx \<and> idx < int (length (entries b)) \<and> 0 \<le> i \<and> i < int (length res)
           then linesLoop b n (i + 1) (res[nat i := entries b ! nat idx])
           else Inl IndexOutOfRange)
      else Inr res)"
  by pat_completeness auto
termination
  by (relation "measure (\<lambda>(b, n, i, res). nat (n - i))") auto

declare linesLoop.simps [simp del]

definition lines :: "strCircBuf \<Rightarrow> panic + string list" where
  "lines b =
     (let n = cap b in
      if int (length (entries b)) < n then Inr (entries b)
      else linesLoop b n 0 (replicate (nat n) []))"

text \<open>A sequence of pushes, in order, stopping at the first panic.\<close>

fun pushAll :: "string list \<Rightarrow> strCircBuf \<Rightarrow> panic + strCircBuf" where
  "pushAll [] b = Inr b"
| "pushAll (s # ss) b = (case push s b of Inl pn \<Rightarrow> Inl pn | Inr b' \<Rightarrow> pushAll ss b')"

section \<open>Ring buffer: representation invariant\<close>

text \<open>
  \<open>holds b k xs\<close>: the buffer \<open>b\<close> of capacity \<open>k\<close> is the one reached after pushing the
  lines \<open>xs\<close>; while it is not full the entries are \<open>xs\<close>, afterwards the entries read
  from position \<open>head + 1\<close> round the array are the last \<open>k\<close> lines of \<open>xs\<close>.
\<close>

definition holds :: "strCircBuf \<Rightarrow> int \<Rightarrow> string list \<Rightarrow> bool" where
  "holds b k xs \<longleftrightarrow>
     cap b = k \<and> 0 \<le> k \<and>
     (if int (length xs) < k then entries b = xs \<and> head b = int (length xs) - 1
      else int (length (entries b)) = k \<and>
           (if k = 0 then head b = - 1 else 0 \<le> head b \<and> head b < k) \<and>
           drop (nat (head b + 1)) (entries b) @ take (nat (head b + 1)) (entries b)
             = drop (length xs - nat k) xs)"

section \<open>The line scanner\<close>

text \<open>
  \<open>bufio.Scanner\<close> with its default split function delivers the reader's bytes line by
  line. A reader is modelled by the lines it delivers (\<open>content\<close>) and by the error with
  which it stops after them (\<open>failure\<close>, \<open>None\<close> or \<open>Some EOF\<close> for the regular end of
  the stream). The scanner records that error when \<open>Scan\<close> first returns false, and
  \<open>Err\<close> hides \<open>io.EOF\<close>.
\<close>

record Reader =
  content :: "string list"
  failure :: "error option"

record Scanner =
  pending :: "string list"
  readErr :: "error option"
  scanErr :: "error option"

definition NewScanner :: "Reader \<Rightarrow> Scanner" where
  "NewScanner r = \<lparr>pending = content r, readErr = failure r, scanErr = None\<rparr>"

text \<open>\<open>Scan\<close> followed by \<open>Text\<close>: \<open>Some line\<close> for true, \<open>None\<close> for false.\<close>

definition Scan :: "Scanner \<Rightarrow> string option \<times> Scanner" where
  "Scan sc =
     (case pending sc of
        [] \<Rightarrow> (None, sc\<lparr>scanErr := readErr sc\<rparr>)
      | l # ls \<Rightarrow> (Some l, sc\<lparr>pending := ls\<rparr>))"

definition Err :: "Scanner \<Rightarrow> error option" where
  "Err sc = (if scanErr sc = Some EOF then None else scanErr sc)"

section \<open>Header search\<close>

text \<open>
  \<open>ParseDiffFileHeader\<close> and \<open>ParseDiffHunkHeader\<close> belong to the line-syntax layer;
  the engine is modelled for any pair of recognizers: \<open>pf\<close> tells whether a line is a file
  header (its data is discarded by \<open>DiffCut\<close>), \<open>ph\<close> returns the hunk header of a line
  that is one.
\<close>

function scanFileHeader :: "(string \<Rightarrow> bool) \<Rightarrow> Scanner \<Rightarrow> error option \<times> Scanner" where
  "scanFileHeader pf sc =
     (case Scan sc of
        (Some line, sc') \<Rightarrow> if pf line then (None, sc') else scanFileHeader pf sc'
      | (None, sc') \<Rightarrow>
          (case Err sc' of
             Some e \<Rightarrow> (Some e, sc')
           | None \<Rightarrow> (Some ErrHunkNotFound, sc')))"
  by pat_completeness auto
termination
  by (relation "measure (\<lambda>(pf, sc). length (pending sc))")
     (auto simp: Scan_def split: list.splits)

declare scanFileHeader.simps [simp del]

function scanHunkHeader ::
  "(string \<Rightarrow> HunkHeader option) \<Rightarrow> Scanner \<Rightarrow> (HunkHeader \<times> error option) \<times> Scanner" where
  "scanHunkHeader ph sc =
     (case Scan sc of
        (Some line, sc') \<Rightarrow>
          (case ph line of
             Some h \<Rightarrow> ((h, None), sc')
           | None \<Rightarrow> scanHunkHeader ph sc')
      | (None, sc') \<Rightarrow>
          (case Err sc' of
             Some e \<Rightarrow> ((zeroHunkHeader, Some e), sc')
           | None \<Rightarrow> ((zeroHunkHeader, Some ErrHunkNotFound), sc')))"
  by pat_completeness auto
termination
  by (relation "measure (\<lambda>(ph, sc). length (pending sc))")
     (auto simp: Scan_def split: list.splits)

declare scanHunkHeader.simps [simp del]

section \<open>Line classification\<close>

type_synonym diffAction = char

abbreviation actionUnchanged :: diffAction where "actionUnchanged \<equiv> CHR '' ''"
abbreviation actionRemoved :: diffAction where "actionRemoved \<equiv> CHR ''-''"
abbreviation actionAdded :: diffAction where "actionAdded \<equiv> CHR ''+''"

definition scanHunkLine :: "Scanner \<Rightarrow> (string \<times> diffAction \<times> error option) \<times> Scanner" where
  "scanHunkLine sc =
     (case Scan sc of
        (None, sc') \<Rightarrow> (([], actionUnchanged, Err sc'), sc')
      | (Some line, sc') \<Rightarrow>
          (case line of
             [] \<Rightarrow> (([], actionUnchanged, Some ErrHunkNotFound), sc')
           | action # _ \<Rightarrow>
               if action \<noteq> actionRemoved \<and> action \<noteq> actionAdded \<and> action \<noteq> actionUnchanged
               then (([], actionUnchanged, None), sc')
               else ((line, action, None), sc')))"

text \<open>\<open>diffAction(s[0])\<close>: indexing an empty string panics.\<close>

definition byte0 :: "string \<Rightarrow> panic + diffAction" where
  "byte0 s = (case s of [] \<Rightarrow> Inl IndexOutOfRange | c # _ \<Rightarrow> Inr c)"

section \<open>The scan loop of \<open>DiffCut\<close>\<close>

record LoopState =
  scanner :: Scanner
  err :: "error option"
  currentOldLine :: int
  currentNewLine :: int
  inCut :: bool
  diffCutHeader :: HunkHeader
  diffCut :: "string list"
  linesBeforeBuf :: strCircBuf

text \<open>
  One pass through the body of the \<open>for\<close> loop ends in the next iteration
  (\<open>Continue\<close>), in a \<open>break\<close> (\<open>Break\<close>), or in the
  \<open>return types.HunkHeader{}, types.Hunk{}, err\<close> of the body (\<open>Return\<close>).
\<close>

datatype Flow = Continue LoopState | Break LoopState | Return LoopState

definition incrementLineNumbers :: "diffAction \<Rightarrow> LoopState \<Rightarrow> LoopState" where
  "incrementLineNumbers action st =
     (let st = (if action \<noteq> actionRemoved
                then st\<lparr>currentNewLine := currentNewLine st + 1\<rparr> else st);
          st = (if action \<noteq> actionAdded
                then st\<lparr>currentOldLine := currentOldLine st + 1\<rparr> else st)
      in st)"

definition includeLine :: "string \<Rightarrow> diffAction \<Rightarrow> LoopState \<Rightarrow> LoopState" where
  "includeLine line action st =
     (let st = (if \<not> inCut st
                then st\<lparr>diffCutHeader :=
                        (diffCutHeader st)\<lparr>NewLine := currentNewLine st,
                                            OldLine := currentOldLine st\<rparr>\<rparr>
                else st);
          st = st\<lparr>inCut := True\<rparr>;
          st = (if action \<noteq> actionRemoved
                then st\<lparr>diffCutHeader :=
                        (diffCutHeader st)\<lparr>NewSpan := NewSpan (diffCutHeader st) + 1\<rparr>\<rparr>
                else st);
          st = (if action \<noteq> actionAdded
                then st\<lparr>diffCutHeader :=
                        (diffCutHeader st)\<lparr>OldSpan := OldSpan (diffCutHeader st) + 1\<rparr>\<rparr>
                else st)
      in st\<lparr>diffCut := diffCut st @ [line]\<rparr>)"

definition exceededRange :: "DiffCutParams \<Rightarrow> LoopState \<Rightarrow> bool" where
  "exceededRange params st \<longleftrightarrow>
     LineEndNew params \<and> currentNewLine st > LineEnd params \<or>
     \<not> LineEndNew params \<and> currentOldLine st > LineEnd params"

definition notYetInRange :: "DiffCutParams \<Rightarrow> LoopState \<Rightarrow> bool" where
  "notYetInRange params st \<longleftrightarrow>
     LineStartNew params \<and> currentNewLine st < LineStart params \<or>
     \<not> LineStartNew params \<and> currentOldLine st < LineStart params"

definition loopBody :: "DiffCutParams \<Rightarrow> LoopState \<Rightarrow> panic + Flow" where
  "loopBody params st =
     (if exceededRange params st then Inr (Break st)
      else
        (case scanHunkLine (scanner st) of
           ((line, action, e), sc) \<Rightarrow>
             let st = st\<lparr>scanner := sc, err := e\<rparr> in
             if e \<noteq> None then Inr (Return st)
             else if line = [] then Inr (Break (st\<lparr>err := Some EOF\<rparr>))
             else if notYetInRange params st then
               (case push line (linesBeforeBuf st) of
                  Inl pn \<Rightarrow> Inl pn
                | Inr b \<Rightarrow>
                    Inr (Continue (incrementLineNumbers action (st\<lparr>linesBeforeBuf := b\<rparr>))))
             else
               let st = includeLine line action st in
               if int (length (diffCut st)) > LineLimit params then Inr (Break st)
               else Inr (Continue (incrementLineNumbers action st))))"

text \<open>How the loop was left: by \<open>break\<close> or by the \<open>return\<close> of its body.\<close>

datatype LoopExit = Broke | Returned

function cutLoop :: "DiffCutParams \<Rightarrow> LoopState \<Rightarrow> panic + (LoopExit \<times> LoopState)" where
  "cutLoop params st =
     (case loopBody params st of
        Inl pn \<Rightarrow> Inl pn
      | Inr (Continue st') \<Rightarrow> cutLoop params st'
      | Inr (Break st') \<Rightarrow> Inr (Broke, st')
      | Inr (Return st') \<Rightarrow> Inr (Returned, st'))"
  by pat_completeness auto
termination
  by (relation "measure (\<lambda>(params, st). length (pending (scanner st)))")
     (auto simp: loopBody_def scanHunkLine_def Scan_def Let_def incrementLineNumbers_def
                 includeLine_def
           split: if_splits list.splits sum.splits)

declare cutLoop.simps [simp del]

definition initLoopState :: "HunkHeader \<Rightarrow> Scanner \<Rightarrow> strCircBuf \<Rightarrow> LoopState" where
  "initLoopState hunkHeader sc buf =
     \<lparr>scanner = sc, err = None,
      currentOldLine = OldLine hunkHeader, currentNewLine = NewLine hunkHeader,
      inCut = False, diffCutHeader = zeroHunkHeader, diffCut = [],
      linesBeforeBuf = buf\<rparr>"

section \<open>Trailing context, span reconciliation, concatenation\<close>

function collectAfter ::
  "DiffCutParams \<Rightarrow> int \<Rightarrow> Scanner \<Rightarrow> string list \<Rightarrow> string list \<times> Scanner" where
  "collectAfter params i sc linesAfter =
     (if i < AfterLines params then
        (case Scan sc of
           (None, sc') \<Rightarrow> (linesAfter, sc')
         | (Some line, sc') \<Rightarrow>
             if line = [] then (linesAfter, sc')
             else collectAfter params (i + 1) sc' (linesAfter @ [line]))
      else (linesAfter, sc))"
  by pat_completeness auto
termination
  by (relation "measure (\<lambda>(params, i, sc, linesAfter). length (pending sc))")
     (auto simp: Scan_def split: list.splits)

declare collectAfter.simps [simp del]

fun reconcileBefore :: "string list \<Rightarrow> HunkHeader \<Rightarrow> panic + HunkHeader" where
  "reconcileBefore [] h = Inr h"
| "reconcileBefore (s # ss) h =
     (case byte0 s of
        Inl pn \<Rightarrow> Inl pn
      | Inr action \<Rightarrow>
          let h = (if action \<noteq> actionRemoved
                   then h\<lparr>NewLine := NewLine h - 1, NewSpan := NewSpan h + 1\<rparr> else h);
              h = (if action \<noteq> actionAdded
                   then h\<lparr>OldLine := OldLine h - 1, OldSpan := OldSpan h + 1\<rparr> else h)
          in reconcileBefore ss h)"

fun reconcileAfter :: "string list \<Rightarrow> HunkHeader \<Rightarrow> panic + HunkHeader" where
  "reconcileAfter [] h = Inr h"
| "reconcileAfter (s # ss) h =
     (case byte0 s of
        Inl pn \<Rightarrow> Inl pn
      | Inr action \<Rightarrow>
          let h = (if action \<noteq> actionRemoved then h\<lparr>NewSpan := NewSpan h + 1\<rparr> else h);
              h = (if action \<noteq> actionAdded then h\<lparr>OldSpan := OldSpan h + 1\<rparr> else h)
          in reconcileAfter ss h)"

text \<open>
  \<open>concat\<close>: the first loop adds up the lengths, \<open>make\<close> allocates that many zero values
  \<open>z\<close>, the second loop copies each slice to its offset. \<open>copy\<close> moves as many elements
  as fit; slicing \<open>res[n:]\<close> beyond the length panics.
\<close>

fun concatLen :: "'a list list \<Rightarrow> nat \<Rightarrow> nat" where
  "concatLen [] n = n"
| "concatLen (m # a) n = concatLen a (n + length m)"

definition copyAt :: "'a list \<Rightarrow> nat \<Rightarrow> 'a list \<Rightarrow> panic + 'a list" where
  "copyAt res n m =
     (if n > length res then Inl IndexOutOfRange
      else
        let k = min (length res - n) (length m)
        in Inr (take n res @ take k m @ drop (n + k) res))"

fun concatFill :: "'a list list \<Rightarrow> nat \<Rightarrow> 'a list \<Rightarrow> panic + 'a list" where
  "concatFill [] n res = Inr res"
| "concatFill (m # a) n res =
     (case copyAt res n m of
        Inl pn \<Rightarrow> Inl pn
      | Inr res' \<Rightarrow> concatFill a (n + length m) res')"

definition concatSlices :: "'a \<Rightarrow> 'a list list \<Rightarrow> panic + 'a list" where
  "concatSlices z a = concatFill a 0 (replicate (concatLen a 0) z)"

section \<open>\<open>DiffCut\<close>\<close>

text \<open>The part of \<open>DiffCut\<close> after the scan loop has been left by \<open>break\<close>.\<close>

definition finishCut ::
  "DiffCutParams \<Rightarrow> LoopState \<Rightarrow> panic + (HunkHeader \<times> Hunk \<times> error option)" where
  "finishCut params st =
     (if \<not> inCut st then Inr (zeroHunkHeader, zeroHunk, Some ErrHunkNotFound)
      else
        (case lines (linesBeforeBuf st) of
           Inl pn \<Rightarrow> Inl pn
         | Inr linesBefore \<Rightarrow>
             let (linesAfter, e) =
                   (if err st \<noteq> Some EOF
                    then (case collectAfter params 0 (scanner st) [] of
                            (la, sc) \<Rightarrow> (la, Err sc))
                    else ([], None))
             in
             if e \<noteq> None then Inr (zeroHunkHeader, zeroHunk, e)
             else
               (case reconcileBefore linesBefore (diffCutHeader st) of
                  Inl pn \<Rightarrow> Inl pn
                | Inr h1 \<Rightarrow>
                    (case reconcileAfter linesAfter h1 of
                       Inl pn \<Rightarrow> Inl pn
                     | Inr diffCutHeaderLines \<Rightarrow>
                         (case concatSlices [] [linesBefore, diffCut st, linesAfter] of
                            Inl pn \<Rightarrow> Inl pn
                          | Inr ls \<Rightarrow>
                              Inr (diffCutHeader st,
                                   \<lparr>HunkHeader = diffCutHeaderLines, Lines = ls\<rparr>,
                                   None))))))"

definition DiffCut ::
  "(string \<Rightarrow> bool) \<Rightarrow> (string \<Rightarrow> HunkHeader option) \<Rightarrow> Reader \<Rightarrow> DiffCutParams
     \<Rightarrow> panic + (HunkHeader \<times> Hunk \<times> error option)" where
  "DiffCut pf ph r params =
     (case scanFileHeader pf (NewScanner r) of
        (Some e, sc) \<Rightarrow> Inr (zeroHunkHeader, zeroHunk, Some e)
      | (None, sc) \<Rightarrow>
          (case scanHunkHeader ph sc of
             ((hunkHeader, Some e), sc) \<Rightarrow> Inr (zeroHunkHeader, zeroHunk, Some e)
           | ((hunkHeader, None), sc) \<Rightarrow>
               (case newStrCircBuf (BeforeLines params) of
                  Inl pn \<Rightarrow> Inl pn
                | Inr buf \<Rightarrow>
                    (case cutLoop params (initLoopState hunkHeader sc buf) of
                       Inl pn \<Rightarrow> Inl pn
                     | Inr (Returned, st) \<Rightarrow> Inr (zeroHunkHeader, zeroHunk, err st)
                     | Inr (Broke, st) \<Rightarrow> finishCut params st))))"

section \<open>Line counts and the invariant of the scan loop\<close>

text \<open>
  \<open>oldCount ls\<close> is the number of lines of \<open>ls\<close> whose first byte is not \<open>+\<close> (the lines
  that exist in the old file), \<open>newCount ls\<close> the number of those whose first byte is not
  \<open>-\<close>. A hunk line is a line that starts with one of the three action bytes.
\<close>

definition oldCount :: "string list \<Rightarrow> int" where
  "oldCount ls = int (length (filter (\<lambda>s. byte0 s \<noteq> Inr actionAdded) ls))"

definition newCount :: "string list \<Rightarrow> int" where
  "newCount ls = int (length (filter (\<lambda>s. byte0 s \<noteq> Inr actionRemoved) ls))"

definition isHunkLine :: "string \<Rightarrow> bool" where
  "isHunkLine s \<longleftrightarrow>
     byte0 s = Inr actionUnchanged \<or> byte0 s = Inr actionRemoved \<or> byte0 s = Inr actionAdded"

text \<open>
  \<open>below params h pre\<close>: after the lines \<open>pre\<close> of a hunk with header \<open>h\<close>, the line
  number that \<open>LineStartNew\<close> selects is still smaller than \<open>LineStart\<close>;
  \<open>beyond params h pre\<close>: the line number that \<open>LineEndNew\<close> selects is greater than
  \<open>LineEnd\<close>.
\<close>

definition below :: "DiffCutParams \<Rightarrow> HunkHeader \<Rightarrow> string list \<Rightarrow> bool" where
  "below params h pre \<longleftrightarrow>
     (if LineStartNew params then NewLine h + newCount pre < LineStart params
      else OldLine h + oldCount pre < LineStart params)"

definition beyond :: "DiffCutParams \<Rightarrow> HunkHeader \<Rightarrow> string list \<Rightarrow> bool" where
  "beyond params h pre \<longleftrightarrow>
     (if LineEndNew params then NewLine h + newCount pre > LineEnd params
      else OldLine h + oldCount pre > LineEnd params)"

text \<open>
  The header of the exact window: zero while the cut is empty, afterwards the line numbers
  reached after the skipped lines and the spans of the cut.
\<close>

definition snapshot :: "HunkHeader \<Rightarrow> string list \<Rightarrow> string list \<Rightarrow> HunkHeader" where
  "snapshot h skipped ct =
     (if ct = [] then zeroHunkHeader
      else \<lparr>OldLine = OldLine h + oldCount skipped, OldSpan = oldCount ct,
            NewLine = NewLine h + newCount skipped, NewSpan = newCount ct\<rparr>)"

text \<open>
  What the loop has established when it has read the lines \<open>skipped @ cut\<close> of the hunk
  that starts at scanner position \<open>sc0\<close> with header \<open>h\<close>; the counters are those after
  the lines \<open>counted\<close>.
\<close>

definition progress ::
  "DiffCutParams \<Rightarrow> HunkHeader \<Rightarrow> Scanner \<Rightarrow> string list \<Rightarrow> string list \<Rightarrow> LoopState \<Rightarrow> bool" where
  "progress params h sc0 skipped counted st \<longleftrightarrow>
     readErr (scanner st) = readErr sc0 \<and>
     holds (linesBeforeBuf st) (BeforeLines params) skipped \<and>
     (\<forall>s \<in> set (skipped @ diffCut st). isHunkLine s) \<and>
     currentOldLine st = OldLine h + oldCount counted \<and>
     currentNewLine st = NewLine h + newCount counted \<and>
     inCut st = (diffCut st \<noteq> []) \<and>
     diffCutHeader st = snapshot h skipped (diffCut st) \<and>
     (\<forall>i < length skipped. below params h (take i skipped)) \<and>
     (diffCut st \<noteq> [] \<longrightarrow> \<not> below params h skipped) \<and>
     (\<forall>i < length (skipped @ diffCut st).
        \<not> beyond params h (take i (skipped @ diffCut st)))"

definition loopInv ::
  "DiffCutParams \<Rightarrow> HunkHeader \<Rightarrow> Scanner \<Rightarrow> string list \<Rightarrow> LoopState \<Rightarrow> bool" where
  "loopInv params h sc0 skipped st \<longleftrightarrow>
     progress params h sc0 skipped (skipped @ diffCut st) st \<and>
     pending sc0 = skipped @ diffCut st @ pending (scanner st) \<and>
     scanErr (scanner st) = None \<and> err st = None \<and>
     (diffCut st \<noteq> [] \<longrightarrow> int (length (diffCut st)) \<le> LineLimit params)"

text \<open>The three ways in which the loop is left by \<open>break\<close>, and the \<open>return\<close>.\<close>

definition guardExit ::
  "DiffCutParams \<Rightarrow> HunkHeader \<Rightarrow> Scanner \<Rightarrow> string list \<Rightarrow> LoopState \<Rightarrow> bool" where
  "guardExit params h sc0 skipped st \<longleftrightarrow>
     loopInv params h sc0 skipped st \<and> exceededRange params st"

definition safetyExit ::
  "DiffCutParams \<Rightarrow> HunkHeader \<Rightarrow> Scanner \<Rightarrow> string list \<Rightarrow> LoopState \<Rightarrow> bool" where
  "safetyExit params h sc0 skipped st \<longleftrightarrow>
     progress params h sc0 skipped (skipped @ butlast (diffCut st)) st \<and>
     pending sc0 = skipped @ diffCut st @ pending (scanner st) \<and>
     scanErr (scanner st) = None \<and> err st = None \<and>
     \<not> exceededRange params st \<and>
     diffCut st \<noteq> [] \<and>
     int (length (diffCut st)) > LineLimit params \<and>
     int (length (diffCut st)) = max 0 (LineLimit params) + 1"

definition terminatorExit ::
  "DiffCutParams \<Rightarrow> HunkHeader \<Rightarrow> Scanner \<Rightarrow> string list \<Rightarrow> LoopState \<Rightarrow> bool" where
  "terminatorExit params h sc0 skipped st \<longleftrightarrow>
     progress params h sc0 skipped (skipped @ diffCut st) st \<and>
     err st = Some EOF \<and>
     \<not> exceededRange params st \<and>
     (diffCut st \<noteq> [] \<longrightarrow> int (length (diffCut st)) \<le> LineLimit params) \<and>
     (pending sc0 = skipped @ diffCut st \<and> pending (scanner st) = [] \<and>
        (readErr sc0 = None \<or> readErr sc0 = Some EOF)
      \<or> (\<exists>t. pending sc0 = skipped @ diffCut st @ t # pending (scanner st) \<and>
             t \<noteq> [] \<and> \<not> isHunkLine t \<and> scanErr (scanner st) = None))"

definition returnExit ::
  "DiffCutParams \<Rightarrow> HunkHeader \<Rightarrow> Scanner \<Rightarrow> string list \<Rightarrow> LoopState \<Rightarrow> bool" where
  "returnExit params h sc0 skipped st \<longleftrightarrow>
     progress params h sc0 skipped (skipped @ diffCut st) st \<and>
     \<not> exceededRange params st \<and>
     (diffCut st \<noteq> [] \<longrightarrow> int (length (diffCut st)) \<le> LineLimit params) \<and>
     (pending sc0 = skipped @ diffCut st \<and> pending (scanner st) = [] \<and>
        (\<exists>e. readErr sc0 = Some e \<and> e \<noteq> EOF \<and> err st = Some e)
      \<or> pending sc0 = skipped @ diffCut st @ [] # pending (scanner st) \<and>
        err st = Some ErrHunkNotFound)"

definition loopExit ::
  "DiffCutParams \<Rightarrow> HunkHeader \<Rightarrow> Scanner \<Rightarrow> string list \<Rightarrow> LoopExit \<Rightarrow> LoopState \<Rightarrow> bool" where
  "loopExit params h sc0 skipped ex st \<longleftrightarrow>
     (case ex of
        Broke \<Rightarrow> guardExit params h sc0 skipped st \<or> safetyExit params h sc0 skipped st \<or>
                 terminatorExit params h sc0 skipped st
      | Returned \<Rightarrow> returnExit params h sc0 skipped st)"

section \<open>Auxiliary notions for the statements\<close>

text \<open>
  The error with which a header search ends when the lines run out: the reader's error,
  or \<open>ErrHunkNotFound\<close> when the stream ended regularly.
\<close>

definition endError :: "Scanner \<Rightarrow> error" where
  "endError sc =
     (case Err (sc\<lparr>scanErr := readErr sc\<rparr>) of Some e \<Rightarrow> e | None \<Rightarrow> ErrHunkNotFound)"

text \<open>
  \<open>hunkStart pf ph r\<close>: the hunk header and the scanner position behind it, when
  \<open>scanFileHeader\<close> and then \<open>scanHunkHeader\<close> succeed on the reader \<open>r\<close>.
\<close>

definition hunkStart ::
  "(string \<Rightarrow> bool) \<Rightarrow> (string \<Rightarrow> HunkHeader option) \<Rightarrow> Reader
     \<Rightarrow> (HunkHeader \<times> Scanner) option" where
  "hunkStart pf ph r =
     (case scanFileHeader pf (NewScanner r) of
        (Some e, sc) \<Rightarrow> None
      | (None, sc) \<Rightarrow>
          (case scanHunkHeader ph sc of
             ((h, Some e), sc') \<Rightarrow> None
           | ((h, None), sc') \<Rightarrow> Some (h, sc')))"

text \<open>
  The lines that the trailing-context loop takes from the pending lines: at most
  \<open>AfterLines\<close>, none from the first empty line on.
\<close>

definition trailing :: "DiffCutParams \<Rightarrow> string list \<Rightarrow> string list" where
  "trailing params ls = take (nat (AfterLines params)) (takeWhile (\<lambda>l. l \<noteq> []) ls)"

text \<open>The header that covers the lines \<open>before\<close>, the exact window \<open>hh\<close> and the lines \<open>after\<close>.\<close>

definition reconciled :: "HunkHeader \<Rightarrow> string list \<Rightarrow> string list \<Rightarrow> HunkHeader" where
  "reconciled hh before after =
     \<lparr>OldLine = OldLine hh - oldCount before,
      OldSpan = OldSpan hh + oldCount before + oldCount after,
      NewLine = NewLine hh - newCount before,
      NewSpan = NewSpan hh + newCount before + newCount after\<rparr>"

text \<open>
  The error of the trailing-context loop started at scanner position \<open>sc\<close>: the reader's
  error, when the lines run out before \<open>AfterLines\<close> lines and before an empty line.
\<close>

definition afterError :: "DiffCutParams \<Rightarrow> Scanner \<Rightarrow> error option" where
  "afterError params sc =
     (if int (length (pending sc)) < AfterLines params \<and> (\<forall>l \<in> set (pending sc). l \<noteq> [])
      then Err (sc\<lparr>scanErr := readErr sc\<rparr>) else None)"

section \<open>A sample diff\<close>

text \<open>
  Concrete inputs on which the theorems below are instantiated: two recognizers, a diff
  with the hunk header \<open>@@ -5,4 +5,5 @@\<close> and the hunk lines \<open> a\<close>, \<open>-b\<close>, \<open>+c\<close>,
  \<open>+d\<close>, \<open> e\<close>, and the request for old line 6 with one line of context on each side.
\<close>

definition sampleFileHeader :: "string \<Rightarrow> bool" where
  "sampleFileHeader l \<longleftrightarrow> take 11 l = ''diff --git ''"

definition sampleHunkHeader :: "string \<Rightarrow> HunkHeader option" where
  "sampleHunkHeader l =
     (if l = ''@@ -5,4 +5,5 @@''
      then Some \<lparr>OldLine = 5, OldSpan = 4, NewLine = 5, NewSpan = 5\<rparr>
      else None)"

definition sampleReader :: Reader where
  "sampleReader =
     \<lparr>content = [''diff --git a/f b/f'', ''--- a/f'', ''+++ b/f'', ''@@ -5,4 +5,5 @@'',
                 '' a'', ''-b'', ''+c'', ''+d'', '' e''],
      failure = None\<rparr>"

definition sampleParams :: DiffCutParams where
  "sampleParams =
     \<lparr>LineStart = 6, LineStartNew = False, LineEnd = 6, LineEndNew = False,
      BeforeLines = 1, AfterLines = 1, LineLimit = 10\<rparr>"

text \<open>
  The same diff with a window of old lines 6 to 8, no context and \<open>LineLimit = 1\<close>; the
  hunk header and the scanner position at which the scan loop starts on the sample diff.
\<close>

definition sampleLimitParams :: DiffCutParams where
  "sampleLimitParams =
     \<lparr>LineStart = 6, LineStartNew = False, LineEnd = 8, LineEndNew = False,
      BeforeLines = 0, AfterLines = 0, LineLimit = 1\<rparr>"

definition sampleHeader :: HunkHeader where
  "sampleHeader = \<lparr>OldLine = 5, OldSpan = 4, NewLine = 5, NewSpan = 5\<rparr>"

definition sampleBody :: Scanner where
  "sampleBody =
     \<lparr>pending = ['' a'', ''-b'', ''+c'', ''+d'', '' e''], readErr = None, scanErr = None\<rparr>"

text \<open>
  Two streams in which the hunk lines \<open> a\<close>, \<open>-b\<close> are followed by a line that is no hunk
  line: the file header of a next file, and an empty line.
\<close>

definition sampleNextFile :: Reader where
  "sampleNextFile =
     \<lparr>content = [''diff --git a/f b/f'', ''@@ -5,4 +5,5 @@'', '' a'', ''-b'',
                 ''diff --git a/g b/g'', ''@@ -1,1 +1,1 @@'', '' x''],
      failure = None\<rparr>"

definition sampleBlankLine :: Reader where
  "sampleBlankLine =
     \<lparr>content = [''diff --git a/f b/f'', ''@@ -5,4 +5,5 @@'', '' a'', ''-b'', [], '' e''],
      failure = None\<rparr>"

text \<open>
  The request for old lines 6 to 8 with one line of context on each side and
  \<open>LineLimit = 0\<close>.
\<close>

definition sampleSafetyParams :: DiffCutParams where
  "sampleSafetyParams =
     \<lparr>LineStart = 6, LineStartNew = False, LineEnd = 8, LineEndNew = False,
      BeforeLines = 1, AfterLines = 1, LineLimit = 0\<rparr>"

text \<open>
  Two hunks with an insertion of two lines in which old line 10 is new line 12 (the line
  \<open> d\<close>): in the first the inserted lines stand directly before that line, in the second
  two unchanged lines lie between. The two requests anchor the window at old line 10 and
  at new line 12, without context.
\<close>

definition sampleInsertionHeader :: "string \<Rightarrow> HunkHeader option" where
  "sampleInsertionHeader l =
     (if l = ''@@ -9,2 +9,4 @@''
      then Some \<lparr>OldLine = 9, OldSpan = 2, NewLine = 9, NewSpan = 4\<rparr>
      else if l = ''@@ -8,3 +8,5 @@''
      then Some \<lparr>OldLine = 8, OldSpan = 3, NewLine = 8, NewSpan = 5\<rparr>
      else None)"

definition sampleInsertion :: Reader where
  "sampleInsertion =
     \<lparr>content = [''diff --git a/f b/f'', ''@@ -9,2 +9,4 @@'', '' a'', ''+b'', ''+c'', '' d''],
      failure = None\<rparr>"

definition sampleInsertionEarlier :: Reader where
  "sampleInsertionEarlier =
     \<lparr>content = [''diff --git a/f b/f'', ''@@ -8,3 +8,5 @@'',
                 ''+p'', ''+q'', '' x'', '' y'', '' d''],
      failure = None\<rparr>"

definition sampleOldStart :: DiffCutParams where
  "sampleOldStart =
     \<lparr>LineStart = 10, LineStartNew = False, LineEnd = 10, LineEndNew = False,
      BeforeLines = 0, AfterLines = 0, LineLimit = 100\<rparr>"

definition sampleNewStart :: DiffCutParams where
  "sampleNewStart =
     \<lparr>LineStart = 12, LineStartNew = True, LineEnd = 10, LineEndNew = False,
      BeforeLines = 0, AfterLines = 0, LineLimit = 100\<rparr>"

section \<open>Properties of the ring buffer\<close>

lemma holds_new: "0 \<le> k \<Longrightarrow> newStrCircBuf k = Inr b \<Longrightarrow> holds b k []"
  by (auto simp: newStrCircBuf_def holds_def)

lemma holds_push_notfull:
  assumes "holds b k xs" "int (length xs) < k"
  shows "\<exists>b'. push s b = Inr b' \<and> holds b' k (xs @ [s])"
proof -
  from assms have c: "cap b = k" "entries b = xs" "head b = int (length xs) - 1" "0 < k"
    by (auto simp: holds_def)
  define b' where "b' = b\<lparr>head := int (length xs), entries := xs @ [s]\<rparr>"
  have p: "push s b = Inr b'"
    using c assms(2) by (simp add: push_def Let_def b'_def)
  have "holds b' k (xs @ [s])"
  proof (cases "int (length xs) + 1 < k")
    case True
    with c show ?thesis by (simp add: holds_def b'_def)
  next
    case False
    with assms(2) have "int (length xs) + 1 = k" by simp
    then have k: "nat k = Suc (length xs)" "k = int (length xs) + 1" by linarith+
    show ?thesis unfolding holds_def b'_def using c(1,4) k by simp
  qed
  with p show ?thesis by blast
qed

lemma holds_push_full:
  assumes "holds b k xs" "\<not> int (length xs) < k"
  shows "\<exists>b'. push s b = Inr b' \<and> holds b' k (xs @ [s])"
proof (cases "k = 0")
  case True
  with assms show ?thesis by (auto simp: push_def holds_def Let_def)
next
  case False
  define e where "e = entries b"
  define h where "h = nat (head b + 1)"
  from assms False have c: "cap b = k" "0 < k" "length e = nat k" "0 \<le> head b" "head b < k"
    and eq: "drop h e @ take h e = drop (length xs - nat k) xs"
    by (auto simp: holds_def e_def h_def)
  have le: "int (length e) = k" using c by simp
  have hk: "h \<le> nat k" "0 < h" using c h_def by linarith+
  have lx: "nat k \<le> length xs" using assms(2) by linarith
  have dr: "drop (length (xs @ [s]) - nat k) (xs @ [s]) = tl (drop (length xs - nat k) xs) @ [s]"
    using lx c(2) by (simp add: drop_Suc Suc_diff_le tl_drop tl_append2)
  show ?thesis
  proof (cases "h = nat k")
    case True
    then have hb: "head b + 1 = k" using h_def c by linarith
    define b' where "b' = b\<lparr>head := 0, entries := e[0 := s]\<rparr>"
    have p: "push s b = Inr b'"
      using c hb le by (simp add: push_def Let_def b'_def e_def)
    have ee: "e = drop (length xs - nat k) xs" using eq True c by simp
    have ne: "e \<noteq> []" using c by auto
    then obtain x e' where xe: "e = x # e'" by (cases e) auto
    have "drop (Suc 0) (e[0 := s]) @ take (Suc 0) (e[0 := s]) = tl e @ [s]"
      using xe by simp
    moreover have "\<not> int (length (xs @ [s])) < k" using lx c(2) by simp
    moreover have "tl e = tl (drop (length xs - nat k) xs)" using ee by simp
    ultimately have "holds b' k (xs @ [s])"
      unfolding holds_def b'_def using c(1,2,3) dr by (simp del: length_append)
    with p show ?thesis by blast
  next
    case F: False
    with hk have hl: "h < nat k" by simp
    then have hb: "head b + 1 < k" "int h = head b + 1" using h_def c by linarith+
    define b' where "b' = b\<lparr>head := int h, entries := e[h := s]\<rparr>"
    have p: "push s b = Inr b'"
      using c hb le by (simp add: push_def Let_def b'_def e_def h_def)
    have "drop (Suc h) (e[h := s]) = drop (Suc h) e" by simp
    moreover have "take (Suc h) (e[h := s]) = take h e @ [s]"
      using hl c(3) by (simp add: take_Suc_conv_app_nth)
    moreover have "tl (drop h e @ take h e) = drop (Suc h) e @ take h e"
      using hl c(3) by (simp add: tl_drop drop_Suc)
    ultimately have "drop (Suc h) (e[h := s]) @ take (Suc h) (e[h := s]) = tl (drop h e @ take h e) @ [s]"
      by simp
    moreover have "nat (int h + 1) = Suc h" by simp
    moreover have "\<not> int (length (xs @ [s])) < k" using lx c(2) by simp
    moreover have "0 \<le> int h \<and> int h < k" using hl by simp
    ultimately have "holds b' k (xs @ [s])"
      unfolding holds_def b'_def using c(1,2,3) dr eq by (simp del: length_append)
    with p show ?thesis by blast
  qed
qed

lemma holds_push: "holds b k xs \<Longrightarrow> \<exists>b'. push s b = Inr b' \<and> holds b' k (xs @ [s])"
  using holds_push_full holds_push_notfull by blast

lemma holds_pushAll:
  "holds b k xs \<Longrightarrow> \<exists>b'. pushAll ys b = Inr b' \<and> holds b' k (xs @ ys)"
proof (induction ys arbitrary: b xs)
  case Nil
  then show ?case by simp
next
  case (Cons y ys)
  from holds_push[OF Cons.prems, of y] obtain b1 where
    b1: "push y b = Inr b1" "holds b1 k (xs @ [y])" by blast
  from Cons.IH[OF b1(2)] b1(1) show ?case by simp
qed

lemma smod_nonneg: "0 \<le> a \<Longrightarrow> 0 < n \<Longrightarrow> (a::int) smod n = a mod n"
  by (simp add: smod_int_alt_def sgn_if)

lemma linesLoop_eq:
  "0 \<le> head b + 1 \<Longrightarrow> length (entries b) = nat n \<Longrightarrow> 0 \<le> i \<Longrightarrow> i \<le> n \<Longrightarrow> length res = nat n \<Longrightarrow>
    linesLoop b n i res = Inr (take (nat i) res @ map (\<lambda>j. entries b ! ((nat (head b + 1) + j) mod nat n)) [nat i..<nat n])"
proof (induction b n i res rule: linesLoop.induct)
  case (1 b n i res)
  show ?case
  proof (cases "i < n")
    case True
    have npos: "0 < n" using True 1 by simp
    have "(head b + 1 + i) smod n = (head b + 1 + i) mod n"
      using 1(2,4) npos by (simp add: smod_nonneg)
    also have "\<dots> = int ((nat (head b + 1) + nat i) mod nat n)"
      using 1(2,4) npos by (simp add: zmod_int nat_add_distrib)
    finally have sm: "(head b + 1 + i) smod n = int ((nat (head b + 1) + nat i) mod nat n)" .
    have lt: "(nat (head b + 1) + nat i) mod nat n < nat n" using npos by simp
    then have lti: "int ((nat (head b + 1) + nat i) mod nat n) < n" by linarith
    let ?v = "entries b ! ((nat (head b + 1) + nat i) mod nat n)"
    have step: "linesLoop b n i res = linesLoop b n (i + 1) (res[nat i := ?v])"
      using True npos 1(3,4,6) lt lti sm by (subst linesLoop.simps) (simp add: Let_def)
    have ih: "linesLoop b n (i + 1) (res[nat i := ?v]) =
      Inr (take (nat (i + 1)) (res[nat i := ?v]) @ map (\<lambda>j. entries b ! ((nat (head b + 1) + j) mod nat n)) [nat (i + 1)..<nat n])"
      using 1(1)[OF True _ refl] npos sm lt lti 1(2-) True by simp
    have ni: "nat (i + 1) = Suc (nat i)" using 1(4) by simp
    have il: "nat i < nat n" using True 1(4) by simp
    have t: "take (Suc (nat i)) (res[nat i := ?v]) = take (nat i) res @ [?v]"
      using il 1(6) by (simp add: take_Suc_conv_app_nth)
    have u: "[nat i..<nat n] = nat i # [Suc (nat i)..<nat n]"
      using il by (simp add: upt_conv_Cons)
    show ?thesis unfolding step ih ni t u by simp
  next
    case False
    then show ?thesis using 1 by (subst linesLoop.simps) simp
  qed
qed

lemma holds_lines:
  assumes "holds b k xs"
  shows "lines b = Inr (drop (length xs - nat k) xs)"
proof (cases "int (length xs) < k")
  case True
  with assms show ?thesis by (auto simp: holds_def lines_def)
next
  case False
  define h where "h = nat (head b + 1)"
  from assms False have c: "cap b = k" "0 \<le> k" "length (entries b) = nat k" "0 \<le> head b + 1"
    "h \<le> nat k"
    and eq: "drop h (entries b) @ take h (entries b) = drop (length xs - nat k) xs"
    by (auto simp: holds_def h_def split: if_splits)
  have "lines b = linesLoop b k 0 (replicate (nat k) [])"
    using c by (simp add: lines_def)
  also have "\<dots> = Inr (map (\<lambda>j. entries b ! ((h + j) mod nat k)) [0..<nat k])"
    using c by (subst linesLoop_eq) (simp_all add: h_def)
  also have "map (\<lambda>j. entries b ! ((h + j) mod nat k)) [0..<nat k] = rotate h (entries b)"
    using c(3) by (intro nth_equalityI) (simp_all add: nth_rotate)
  also have "rotate h (entries b) = drop h (entries b) @ take h (entries b)"
  proof (cases "h = nat k")
    case True
    then show ?thesis using c(3) by simp
  next
    case F: False
    then have "h mod length (entries b) = h" using c by simp
    then show ?thesis by (simp add: rotate_drop_take)
  qed
  finally show ?thesis using eq by simp
qed



section \<open>The scan loop: steps and exits\<close>

lemma oldCount_Nil [simp]: "oldCount [] = 0" by (simp add: oldCount_def)
lemma newCount_Nil [simp]: "newCount [] = 0" by (simp add: newCount_def)
lemma oldCount_append [simp]: "oldCount (xs @ ys) = oldCount xs + oldCount ys"
  by (simp add: oldCount_def)
lemma newCount_append [simp]: "newCount (xs @ ys) = newCount xs + newCount ys"
  by (simp add: newCount_def)
lemma oldCount_nonneg: "0 \<le> oldCount xs" by (simp add: oldCount_def)
lemma newCount_nonneg: "0 \<le> newCount xs" by (simp add: newCount_def)
lemma oldCount_single: "oldCount [s] = (if byte0 s \<noteq> Inr actionAdded then 1 else 0)"
  by (simp add: oldCount_def)
lemma newCount_single: "newCount [s] = (if byte0 s \<noteq> Inr actionRemoved then 1 else 0)"
  by (simp add: newCount_def)

lemma isHunkLine_Cons:
  "isHunkLine (c # cs) \<longleftrightarrow> c = actionUnchanged \<or> c = actionRemoved \<or> c = actionAdded"
  by (simp add: isHunkLine_def byte0_def)

lemma not_isHunkLine_Nil [simp]: "\<not> isHunkLine []"
  by (simp add: isHunkLine_def byte0_def)

lemma isHunkLine_nonempty: "isHunkLine s \<Longrightarrow> s \<noteq> []"
  by (auto simp: isHunkLine_def byte0_def)

lemma byte0_hunk: "isHunkLine s \<Longrightarrow> byte0 s = Inr (hd s)"
  by (cases s) (auto simp: isHunkLine_def byte0_def)

lemma below_mono: "below params h (xs @ ys) \<Longrightarrow> below params h xs"
  using oldCount_nonneg[of ys] newCount_nonneg[of ys]
  by (auto simp: below_def split: if_splits)

lemma loopBody_guard: "exceededRange params st \<Longrightarrow> loopBody params st = Inr (Break st)"
  by (simp add: loopBody_def)

lemma loopBody_end:
  assumes "\<not> exceededRange params st" "pending (scanner st) = []"
  shows "loopBody params st =
    (case Err ((scanner st)\<lparr>scanErr := readErr (scanner st)\<rparr>) of
       Some e \<Rightarrow> Inr (Return (st\<lparr>scanner := (scanner st)\<lparr>scanErr := readErr (scanner st)\<rparr>, err := Some e\<rparr>))
     | None \<Rightarrow> Inr (Break (st\<lparr>scanner := (scanner st)\<lparr>scanErr := readErr (scanner st)\<rparr>, err := Some EOF\<rparr>)))"
  using assms by (simp add: loopBody_def scanHunkLine_def Scan_def Let_def split: option.splits)

lemma loopBody_empty:
  assumes "\<not> exceededRange params st" "pending (scanner st) = [] # rest"
  shows "loopBody params st =
    Inr (Return (st\<lparr>scanner := (scanner st)\<lparr>pending := rest\<rparr>, err := Some ErrHunkNotFound\<rparr>))"
  using assms by (simp add: loopBody_def scanHunkLine_def Scan_def Let_def)

lemma loopBody_terminator:
  assumes "\<not> exceededRange params st" "pending (scanner st) = t # rest" "t \<noteq> []" "\<not> isHunkLine t"
  shows "loopBody params st =
    Inr (Break (st\<lparr>scanner := (scanner st)\<lparr>pending := rest\<rparr>, err := Some EOF\<rparr>))"
  using assms by (cases t) (auto simp: loopBody_def scanHunkLine_def Scan_def Let_def isHunkLine_Cons)

lemma notYetInRange_upd [simp]:
  "notYetInRange params (st\<lparr>scanner := sc, err := e\<rparr>) = notYetInRange params st"
  by (simp add: notYetInRange_def)

lemma loopBody_skip:
  assumes "\<not> exceededRange params st" "pending (scanner st) = t # rest" "isHunkLine t"
    "notYetInRange params st"
  shows "loopBody params st =
    (case push t (linesBeforeBuf st) of
       Inl pn \<Rightarrow> Inl pn
     | Inr b \<Rightarrow> Inr (Continue (incrementLineNumbers (hd t)
          (st\<lparr>scanner := (scanner st)\<lparr>pending := rest\<rparr>, err := None, linesBeforeBuf := b\<rparr>))))"
  using assms by (cases t) (auto simp: loopBody_def scanHunkLine_def Scan_def Let_def isHunkLine_Cons
      isHunkLine_nonempty cong: sum.case_cong)

lemma loopBody_include:
  assumes "\<not> exceededRange params st" "pending (scanner st) = t # rest" "isHunkLine t"
    "\<not> notYetInRange params st"
  shows "loopBody params st =
    (let st' = includeLine t (hd t) (st\<lparr>scanner := (scanner st)\<lparr>pending := rest\<rparr>, err := None\<rparr>)
     in if int (length (diffCut st')) > LineLimit params then Inr (Break st')
        else Inr (Continue (incrementLineNumbers (hd t) st')))"
  using assms by (cases t) (auto simp: loopBody_def scanHunkLine_def Scan_def Let_def isHunkLine_Cons
      dest: isHunkLine_nonempty)


lemma includeLine_fields [simp]:
  "diffCut (includeLine t a st) = diffCut st @ [t]"
  "inCut (includeLine t a st) = True"
  "scanner (includeLine t a st) = scanner st"
  "err (includeLine t a st) = err st"
  "currentOldLine (includeLine t a st) = currentOldLine st"
  "currentNewLine (includeLine t a st) = currentNewLine st"
  "linesBeforeBuf (includeLine t a st) = linesBeforeBuf st"
  by (simp_all add: includeLine_def Let_def)

lemma includeLine_header:
  "diffCutHeader (includeLine t a st) =
     \<lparr>OldLine = (if inCut st then OldLine (diffCutHeader st) else currentOldLine st),
      OldSpan = OldSpan (diffCutHeader st) + (if a \<noteq> actionAdded then 1 else 0),
      NewLine = (if inCut st then NewLine (diffCutHeader st) else currentNewLine st),
      NewSpan = NewSpan (diffCutHeader st) + (if a \<noteq> actionRemoved then 1 else 0)\<rparr>"
  by (simp add: includeLine_def Let_def)

lemma incrementLineNumbers_fields [simp]:
  "diffCut (incrementLineNumbers a st) = diffCut st"
  "inCut (incrementLineNumbers a st) = inCut st"
  "scanner (incrementLineNumbers a st) = scanner st"
  "err (incrementLineNumbers a st) = err st"
  "currentOldLine (incrementLineNumbers a st) =
     currentOldLine st + (if a \<noteq> actionAdded then 1 else 0)"
  "currentNewLine (incrementLineNumbers a st) =
     currentNewLine st + (if a \<noteq> actionRemoved then 1 else 0)"
  "linesBeforeBuf (incrementLineNumbers a st) = linesBeforeBuf st"
  "diffCutHeader (incrementLineNumbers a st) = diffCutHeader st"
  by (simp_all add: incrementLineNumbers_def Let_def)

lemma exceededRange_beyond:
  "progress params h sc0 skipped counted st \<Longrightarrow>
   exceededRange params st = beyond params h counted"
  by (auto simp: progress_def exceededRange_def beyond_def)

lemma notYetInRange_below:
  "progress params h sc0 skipped counted st \<Longrightarrow>
   notYetInRange params st = below params h counted"
  by (auto simp: progress_def notYetInRange_def below_def)

lemma oldCount_hunk: "isHunkLine t \<Longrightarrow> oldCount [t] = (if hd t \<noteq> actionAdded then 1 else 0)"
  by (simp add: oldCount_single byte0_hunk)

lemma newCount_hunk: "isHunkLine t \<Longrightarrow> newCount [t] = (if hd t \<noteq> actionRemoved then 1 else 0)"
  by (simp add: newCount_single byte0_hunk)

lemma step_skip:
  assumes inv: "loopInv params h sc0 skipped st"
    and g: "\<not> exceededRange params st"
    and p: "pending (scanner st) = t # rest"
    and t: "isHunkLine t"
    and n: "notYetInRange params st"
  shows "\<exists>st'. loopBody params st = Inr (Continue st') \<and> loopInv params h sc0 (skipped @ [t]) st'
           \<and> length (pending (scanner st')) < length (pending (scanner st))"
proof -
  from inv have pr: "progress params h sc0 skipped (skipped @ diffCut st) st"
    by (simp add: loopInv_def)
  have bl: "below params h (skipped @ diffCut st)"
    using n notYetInRange_below[OF pr] by simp
  have nb: "\<not> beyond params h (skipped @ diffCut st)"
    using g exceededRange_beyond[OF pr] by simp
  have cut: "diffCut st = []"
  proof (rule ccontr)
    assume "diffCut st \<noteq> []"
    with pr have "\<not> below params h skipped" by (simp add: progress_def)
    with below_mono[OF bl] show False by simp
  qed
  from pr have "holds (linesBeforeBuf st) (BeforeLines params) skipped"
    by (simp add: progress_def)
  from holds_push[OF this, of t] obtain b where
    b: "push t (linesBeforeBuf st) = Inr b" "holds b (BeforeLines params) (skipped @ [t])"
    by blast
  define st' where "st' = incrementLineNumbers (hd t)
          (st\<lparr>scanner := (scanner st)\<lparr>pending := rest\<rparr>, err := None, linesBeforeBuf := b\<rparr>)"
  have body: "loopBody params st = Inr (Continue st')"
    using loopBody_skip[OF g p t n] b(1) by (simp add: st'_def)
  have bel: "\<forall>i<length (skipped @ [t]). below params h (take i (skipped @ [t]))"
  proof (intro allI impI)
    fix i assume "i < length (skipped @ [t])"
    then have "i < length skipped \<or> i = length skipped" by auto
    then show "below params h (take i (skipped @ [t]))"
      using pr bl cut by (auto simp: progress_def)
  qed
  have bey: "\<forall>i<length (skipped @ [t]). \<not> beyond params h (take i (skipped @ [t]))"
  proof (intro allI impI)
    fix i assume "i < length (skipped @ [t])"
    then have "i < length skipped \<or> i = length skipped" by auto
    then show "\<not> beyond params h (take i (skipped @ [t]))"
      using pr nb cut by (auto simp: progress_def)
  qed
  have "progress params h sc0 (skipped @ [t]) (skipped @ [t]) st'"
    unfolding progress_def st'_def using pr cut b(2) t bel bey
    by (simp add: progress_def oldCount_hunk newCount_hunk snapshot_def)
  then have "loopInv params h sc0 (skipped @ [t]) st'"
    using inv cut p by (simp add: loopInv_def st'_def)
  moreover have "length (pending (scanner st')) < length (pending (scanner st))"
    using p by (simp add: st'_def)
  ultimately show ?thesis using body by blast
qed


lemma step_include:
  assumes inv: "loopInv params h sc0 skipped st"
    and g: "\<not> exceededRange params st"
    and p: "pending (scanner st) = t # rest"
    and t: "isHunkLine t"
    and n: "\<not> notYetInRange params st"
  shows "(\<exists>st'. loopBody params st = Inr (Break st') \<and> safetyExit params h sc0 skipped st') \<or>
         (\<exists>st'. loopBody params st = Inr (Continue st') \<and> loopInv params h sc0 skipped st'
           \<and> length (pending (scanner st')) < length (pending (scanner st)))"
proof -
  from inv have pr: "progress params h sc0 skipped (skipped @ diffCut st) st"
    and L: "pending sc0 = skipped @ diffCut st @ pending (scanner st)"
    and lim: "diffCut st \<noteq> [] \<longrightarrow> int (length (diffCut st)) \<le> LineLimit params"
    and se: "scanErr (scanner st) = None"
    by (simp_all add: loopInv_def)
  have nbl: "\<not> below params h (skipped @ diffCut st)"
    using n notYetInRange_below[OF pr] by simp
  have nb: "\<not> beyond params h (skipped @ diffCut st)"
    using g exceededRange_beyond[OF pr] by simp
  define st1 where
    "st1 = includeLine t (hd t) (st\<lparr>scanner := (scanner st)\<lparr>pending := rest\<rparr>, err := None\<rparr>)"
  have body: "loopBody params st =
      (if int (length (diffCut st1)) > LineLimit params then Inr (Break st1)
       else Inr (Continue (incrementLineNumbers (hd t) st1)))"
    using loopBody_include[OF g p t n] by (simp add: st1_def Let_def)
  have nbs: "\<not> below params h skipped"
  proof (cases "diffCut st = []")
    case True
    with nbl show ?thesis by simp
  next
    case False
    with pr show ?thesis by (simp add: progress_def)
  qed
  have bey: "\<forall>i<length (skipped @ diffCut st @ [t]).
      \<not> beyond params h (take i (skipped @ diffCut st @ [t]))"
  proof (intro allI impI)
    fix i assume "i < length (skipped @ diffCut st @ [t])"
    then have "i < length (skipped @ diffCut st) \<or> i = length (skipped @ diffCut st)" by auto
    then show "\<not> beyond params h (take i (skipped @ diffCut st @ [t]))"
    proof
      assume i: "i < length (skipped @ diffCut st)"
      then have "take i (skipped @ diffCut st @ [t]) = take i (skipped @ diffCut st)"
        by (simp add: take_append)
      with pr i show ?thesis by (simp add: progress_def)
    next
      assume "i = length (skipped @ diffCut st)"
      then have "take i (skipped @ diffCut st @ [t]) = skipped @ diffCut st" by simp
      with nb show ?thesis by simp
    qed
  qed
  have hdr: "diffCutHeader st1 = snapshot h skipped (diffCut st @ [t])"
    using pr t unfolding st1_def
    by (cases "diffCut st = []")
       (simp_all add: includeLine_header progress_def snapshot_def zeroHunkHeader_def
          oldCount_hunk newCount_hunk)
  have pr1: "progress params h sc0 skipped (skipped @ diffCut st) st1"
    unfolding progress_def using pr t nbs bey hdr
    by (simp add: progress_def st1_def)
  show ?thesis
  proof (cases "int (length (diffCut st1)) > LineLimit params")
    case True
    have len: "int (length (diffCut st1)) = max 0 (LineLimit params) + 1"
      using True lim by (cases "diffCut st = []") (auto simp: st1_def)
    have "exceededRange params st1 = exceededRange params st"
      by (simp add: exceededRange_def st1_def)
    with g have g1: "\<not> exceededRange params st1" by simp
    have "safetyExit params h sc0 skipped st1"
      unfolding safetyExit_def using pr1 L p True len g1 se
      by (simp add: st1_def)
    with body True show ?thesis by auto
  next
    case False
    define st' where "st' = incrementLineNumbers (hd t) st1"
    have "progress params h sc0 skipped (skipped @ diffCut st') st'"
      using pr1 t unfolding progress_def st'_def
      by (simp add: st1_def oldCount_hunk newCount_hunk)
    then have "loopInv params h sc0 skipped st'"
      unfolding loopInv_def using L p False inv
      by (simp add: st'_def st1_def loopInv_def)
    moreover have "length (pending (scanner st')) < length (pending (scanner st))"
      using p by (simp add: st'_def st1_def)
    ultimately show ?thesis using body False by (auto simp: st'_def)
  qed
qed


lemma progress_scanner:
  "progress params h sc0 skipped counted st \<Longrightarrow> readErr sc = readErr (scanner st) \<Longrightarrow>
   progress params h sc0 skipped counted (st\<lparr>scanner := sc, err := e\<rparr>)"
  by (simp add: progress_def)

lemma exceededRange_scanner [simp]:
  "exceededRange params (st\<lparr>scanner := sc, err := e\<rparr>) = exceededRange params st"
  by (simp add: exceededRange_def)

lemma step_end:
  assumes inv: "loopInv params h sc0 skipped st"
    and g: "\<not> exceededRange params st"
    and p: "pending (scanner st) = []"
  shows "(\<exists>st'. loopBody params st = Inr (Break st') \<and> terminatorExit params h sc0 skipped st') \<or>
         (\<exists>st'. loopBody params st = Inr (Return st') \<and> returnExit params h sc0 skipped st')"
proof -
  from inv have pr: "progress params h sc0 skipped (skipped @ diffCut st) st"
    and L: "pending sc0 = skipped @ diffCut st @ pending (scanner st)"
    and lim: "diffCut st \<noteq> [] \<longrightarrow> int (length (diffCut st)) \<le> LineLimit params"
    by (simp_all add: loopInv_def)
  from pr have re: "readErr (scanner st) = readErr sc0" by (simp add: progress_def)
  define sc where "sc = (scanner st)\<lparr>scanErr := readErr (scanner st)\<rparr>"
  have body: "loopBody params st =
    (case Err sc of
       Some e \<Rightarrow> Inr (Return (st\<lparr>scanner := sc, err := Some e\<rparr>))
     | None \<Rightarrow> Inr (Break (st\<lparr>scanner := sc, err := Some EOF\<rparr>)))"
    unfolding sc_def using loopBody_end[OF g p] .
  have rsc: "readErr sc = readErr (scanner st)" "pending sc = []" using p by (simp_all add: sc_def)
  show ?thesis
  proof (cases "Err sc")
    case None
    then have "readErr sc0 = None \<or> readErr sc0 = Some EOF"
      using re by (auto simp: Err_def sc_def split: if_splits)
    then have "terminatorExit params h sc0 skipped (st\<lparr>scanner := sc, err := Some EOF\<rparr>)"
      unfolding terminatorExit_def using progress_scanner[OF pr rsc(1)] g lim L p rsc(2)
      by simp
    with body None show ?thesis by auto
  next
    case (Some e)
    then have "readErr sc0 = Some e \<and> e \<noteq> EOF"
      using re by (auto simp: Err_def sc_def split: if_splits)
    then have "returnExit params h sc0 skipped (st\<lparr>scanner := sc, err := Some e\<rparr>)"
      unfolding returnExit_def using progress_scanner[OF pr rsc(1)] g L p rsc(2) lim
      by simp
    with body Some show ?thesis by auto
  qed
qed

lemma step_empty:
  assumes inv: "loopInv params h sc0 skipped st"
    and g: "\<not> exceededRange params st"
    and p: "pending (scanner st) = [] # rest"
  shows "\<exists>st'. loopBody params st = Inr (Return st') \<and> returnExit params h sc0 skipped st'"
proof -
  from inv have pr: "progress params h sc0 skipped (skipped @ diffCut st) st"
    and L: "pending sc0 = skipped @ diffCut st @ pending (scanner st)"
    and lim: "diffCut st \<noteq> [] \<longrightarrow> int (length (diffCut st)) \<le> LineLimit params"
    by (simp_all add: loopInv_def)
  define sc where "sc = (scanner st)\<lparr>pending := rest\<rparr>"
  have rsc: "readErr sc = readErr (scanner st)" "pending sc = rest" by (simp_all add: sc_def)
  have "returnExit params h sc0 skipped (st\<lparr>scanner := sc, err := Some ErrHunkNotFound\<rparr>)"
    unfolding returnExit_def using progress_scanner[OF pr rsc(1)] g L p rsc(2) lim
    by simp
  then show ?thesis using loopBody_empty[OF g p] by (auto simp: sc_def)
qed

lemma step_terminator:
  assumes inv: "loopInv params h sc0 skipped st"
    and g: "\<not> exceededRange params st"
    and p: "pending (scanner st) = t # rest"
    and t: "t \<noteq> []" "\<not> isHunkLine t"
  shows "\<exists>st'. loopBody params st = Inr (Break st') \<and> terminatorExit params h sc0 skipped st'"
proof -
  from inv have pr: "progress params h sc0 skipped (skipped @ diffCut st) st"
    and L: "pending sc0 = skipped @ diffCut st @ pending (scanner st)"
    and lim: "diffCut st \<noteq> [] \<longrightarrow> int (length (diffCut st)) \<le> LineLimit params"
    and se: "scanErr (scanner st) = None"
    by (simp_all add: loopInv_def)
  define sc where "sc = (scanner st)\<lparr>pending := rest\<rparr>"
  have rsc: "readErr sc = readErr (scanner st)" "pending sc = rest" "scanErr sc = None"
    using se by (simp_all add: sc_def)
  have "\<exists>t. pending sc0 = skipped @ diffCut st @ t # rest \<and> t \<noteq> [] \<and> \<not> isHunkLine t"
    using L p t by auto
  then have "terminatorExit params h sc0 skipped (st\<lparr>scanner := sc, err := Some EOF\<rparr>)"
    unfolding terminatorExit_def using progress_scanner[OF pr rsc(1)] g lim rsc(2,3)
    by simp
  then show ?thesis using loopBody_terminator[OF g p t] by (auto simp: sc_def)
qed

lemma cutLoop_exit:
  "loopInv params h sc0 skipped st \<Longrightarrow>
   \<exists>ex st' skipped'. cutLoop params st = Inr (ex, st') \<and> loopExit params h sc0 skipped' ex st'"
proof (induction params st arbitrary: skipped rule: cutLoop.induct)
  case (1 params st)
  note inv = "1.prems"
  show ?case
  proof (cases "exceededRange params st")
    case True
    then have "cutLoop params st = Inr (Broke, st)"
      by (subst cutLoop.simps) (simp add: loopBody_guard)
    moreover have "loopExit params h sc0 skipped Broke st"
      using inv True by (simp add: loopExit_def guardExit_def)
    ultimately show ?thesis by blast
  next
    case g: False
    show ?thesis
    proof (cases "pending (scanner st)")
      case Nil
      from step_end[OF inv g Nil] show ?thesis
      proof
        assume "\<exists>st'. loopBody params st = Inr (Break st') \<and> terminatorExit params h sc0 skipped st'"
        then obtain st' where s: "loopBody params st = Inr (Break st')"
          "terminatorExit params h sc0 skipped st'" by blast
        then have "cutLoop params st = Inr (Broke, st')"
          by (subst cutLoop.simps) simp
        with s(2) show ?thesis by (auto simp: loopExit_def)
      next
        assume "\<exists>st'. loopBody params st = Inr (Return st') \<and> returnExit params h sc0 skipped st'"
        then obtain st' where s: "loopBody params st = Inr (Return st')"
          "returnExit params h sc0 skipped st'" by blast
        then have "cutLoop params st = Inr (Returned, st')"
          by (subst cutLoop.simps) simp
        with s(2) show ?thesis by (auto simp: loopExit_def)
      qed
    next
      case (Cons t rest)
      show ?thesis
      proof (cases "isHunkLine t")
        case False
        show ?thesis
        proof (cases "t = []")
          case True
          from step_empty[OF inv g Cons[unfolded True]] obtain st' where
            s: "loopBody params st = Inr (Return st')" "returnExit params h sc0 skipped st'"
            by blast
          then have "cutLoop params st = Inr (Returned, st')"
            by (subst cutLoop.simps) simp
          with s(2) show ?thesis by (auto simp: loopExit_def)
        next
          case ne: False
          from step_terminator[OF inv g Cons ne False] obtain st' where
            s: "loopBody params st = Inr (Break st')" "terminatorExit params h sc0 skipped st'"
            by blast
          then have "cutLoop params st = Inr (Broke, st')"
            by (subst cutLoop.simps) simp
          with s(2) show ?thesis by (auto simp: loopExit_def)
        qed
      next
        case t: True
        show ?thesis
        proof (cases "notYetInRange params st")
          case True
          from step_skip[OF inv g Cons t True] obtain st' where
            s: "loopBody params st = Inr (Continue st')" "loopInv params h sc0 (skipped @ [t]) st'"
            by blast
          have "cutLoop params st = cutLoop params st'"
            using s(1) by (subst cutLoop.simps) simp
          with "1.IH"[OF s(1) refl s(2)] show ?thesis by simp
        next
          case False
          from step_include[OF inv g Cons t False] show ?thesis
          proof
            assume "\<exists>st'. loopBody params st = Inr (Break st') \<and> safetyExit params h sc0 skipped st'"
            then obtain st' where s: "loopBody params st = Inr (Break st')"
              "safetyExit params h sc0 skipped st'" by blast
            then have "cutLoop params st = Inr (Broke, st')"
              by (subst cutLoop.simps) simp
            with s(2) show ?thesis by (auto simp: loopExit_def)
          next
            assume "\<exists>st'. loopBody params st = Inr (Continue st') \<and> loopInv params h sc0 skipped st'
              \<and> length (pending (scanner st')) < length (pending (scanner st))"
            then obtain st' where s: "loopBody params st = Inr (Continue st')"
              "loopInv params h sc0 skipped st'" by blast
            have "cutLoop params st = cutLoop params st'"
              using s(1) by (subst cutLoop.simps) simp
            with "1.IH"[OF s(1) refl s(2)] show ?thesis by simp
          qed
        qed
      qed
    qed
  qed
qed

section \<open>Header search, reconciliation and concatenation\<close>

lemma scanFileHeader_eq:
  "scanFileHeader pf sc =
     (case dropWhile (\<lambda>l. \<not> pf l) (pending sc) of
        [] \<Rightarrow> (Some (endError sc), sc\<lparr>pending := [], scanErr := readErr sc\<rparr>)
      | l # rest \<Rightarrow> (None, sc\<lparr>pending := rest\<rparr>))"
proof (induction "pending sc" arbitrary: sc)
  case Nil
  then show ?case
    by (subst scanFileHeader.simps) (simp add: Scan_def endError_def split: option.splits)
next
  case (Cons l ls)
  from Cons(2) have p: "pending sc = l # ls" by simp
  show ?case
  proof (cases "pf l")
    case True
    with p show ?thesis by (subst scanFileHeader.simps) (simp add: Scan_def)
  next
    case False
    have st: "scanFileHeader pf sc = scanFileHeader pf (sc\<lparr>pending := ls\<rparr>)"
      using p False by (subst scanFileHeader.simps) (simp add: Scan_def)
    have ee: "endError (sc\<lparr>pending := ls\<rparr>) = endError sc" by (simp add: endError_def Err_def)
    show ?thesis
    proof (cases "dropWhile (\<lambda>l. \<not> pf l) ls")
      case Nil
      have a: "scanFileHeader pf sc =
          (Some (endError sc), sc\<lparr>pending := [], scanErr := readErr sc\<rparr>)"
        using Cons(1)[of "sc\<lparr>pending := ls\<rparr>"] st ee Nil by simp
      have b: "dropWhile (\<lambda>l. \<not> pf l) (pending sc) = []" using p False Nil by simp
      show ?thesis unfolding a b by simp
    next
      case (Cons x xs)
      have a: "scanFileHeader pf sc = (None, sc\<lparr>pending := xs\<rparr>)"
        using Cons.hyps(1)[of "sc\<lparr>pending := ls\<rparr>"] st Cons by simp
      have b: "dropWhile (\<lambda>l. \<not> pf l) (pending sc) = x # xs" using p False Cons by simp
      show ?thesis unfolding a b by simp
    qed
  qed
qed

lemma scanHunkHeader_eq:
  "scanHunkHeader ph sc =
     (case dropWhile (\<lambda>l. ph l = None) (pending sc) of
        [] \<Rightarrow> ((zeroHunkHeader, Some (endError sc)), sc\<lparr>pending := [], scanErr := readErr sc\<rparr>)
      | l # rest \<Rightarrow> ((the (ph l), None), sc\<lparr>pending := rest\<rparr>))"
proof (induction "pending sc" arbitrary: sc)
  case Nil
  then show ?case
    by (subst scanHunkHeader.simps) (simp add: Scan_def endError_def split: option.splits)
next
  case (Cons l ls)
  from Cons(2) have p: "pending sc = l # ls" by simp
  show ?case
  proof (cases "ph l")
    case (Some h)
    with p show ?thesis by (subst scanHunkHeader.simps) (simp add: Scan_def)
  next
    case None
    have st: "scanHunkHeader ph sc = scanHunkHeader ph (sc\<lparr>pending := ls\<rparr>)"
      using p None by (subst scanHunkHeader.simps) (simp add: Scan_def)
    have ee: "endError (sc\<lparr>pending := ls\<rparr>) = endError sc" by (simp add: endError_def Err_def)
    show ?thesis
    proof (cases "dropWhile (\<lambda>l. ph l = None) ls")
      case Nil
      have a: "scanHunkHeader ph sc =
          ((zeroHunkHeader, Some (endError sc)), sc\<lparr>pending := [], scanErr := readErr sc\<rparr>)"
        using Cons(1)[of "sc\<lparr>pending := ls\<rparr>"] st ee Nil by simp
      have b: "dropWhile (\<lambda>l. ph l = None) (pending sc) = []" using p None Nil by simp
      show ?thesis unfolding a b by simp
    next
      case (Cons x xs)
      have a: "scanHunkHeader ph sc = ((the (ph x), None), sc\<lparr>pending := xs\<rparr>)"
        using Cons.hyps(1)[of "sc\<lparr>pending := ls\<rparr>"] st Cons by simp
      have b: "dropWhile (\<lambda>l. ph l = None) (pending sc) = x # xs" using p None Cons by simp
      show ?thesis unfolding a b by simp
    qed
  qed
qed

lemma byte0_nonempty: "s \<noteq> [] \<Longrightarrow> byte0 s = Inr (hd s)"
  by (cases s) (simp_all add: byte0_def)

lemma oldCount_Cons: "oldCount (s # ss) = oldCount [s] + oldCount ss"
  by (simp add: oldCount_def)

lemma newCount_Cons: "newCount (s # ss) = newCount [s] + newCount ss"
  by (simp add: newCount_def)

lemma reconcileBefore_eq:
  "\<forall>s \<in> set ls. s \<noteq> [] \<Longrightarrow>
   reconcileBefore ls h =
     Inr \<lparr>OldLine = OldLine h - oldCount ls, OldSpan = OldSpan h + oldCount ls,
          NewLine = NewLine h - newCount ls, NewSpan = NewSpan h + newCount ls\<rparr>"
proof (induction ls arbitrary: h)
  case Nil
  then show ?case by simp
next
  case (Cons s ss)
  then have s: "byte0 s = Inr (hd s)" by (simp add: byte0_nonempty)
  from Cons have ih: "\<And>h. reconcileBefore ss h =
     Inr \<lparr>OldLine = OldLine h - oldCount ss, OldSpan = OldSpan h + oldCount ss,
          NewLine = NewLine h - newCount ss, NewSpan = NewSpan h + newCount ss\<rparr>" by simp
  show ?case
    by (simp add: s ih Let_def oldCount_Cons[of s ss] newCount_Cons[of s ss]
          oldCount_single newCount_single)
qed

lemma reconcileAfter_eq:
  "\<forall>s \<in> set ls. s \<noteq> [] \<Longrightarrow>
   reconcileAfter ls h =
     Inr (h\<lparr>OldSpan := OldSpan h + oldCount ls, NewSpan := NewSpan h + newCount ls\<rparr>)"
proof (induction ls arbitrary: h)
  case Nil
  then show ?case by simp
next
  case (Cons s ss)
  then have s: "byte0 s = Inr (hd s)" by (simp add: byte0_nonempty)
  from Cons have ih: "\<And>h. reconcileAfter ss h =
     Inr (h\<lparr>OldSpan := OldSpan h + oldCount ss, NewSpan := NewSpan h + newCount ss\<rparr>)" by simp
  show ?case
    by (simp add: s ih Let_def oldCount_Cons[of s ss] newCount_Cons[of s ss]
          oldCount_single newCount_single)
qed

lemma concatLen_eq: "concatLen a n = n + length (concat a)"
  by (induction a arbitrary: n) simp_all

lemma concatFill_eq:
  "n + length (concat a) \<le> length res \<Longrightarrow>
   concatFill a n res = Inr (take n res @ concat a @ drop (n + length (concat a)) res)"
proof (induction a arbitrary: n res)
  case Nil
  then show ?case by simp
next
  case (Cons m a)
  then have le: "n + length m \<le> length res" by simp
  define res' where "res' = take n res @ m @ drop (n + length m) res"
  have c: "copyAt res n m = Inr res'"
    using le by (auto simp: copyAt_def Let_def res'_def min_def)
  have l: "length res' = length res" using le by (simp add: res'_def)
  have "concatFill (m # a) n res = concatFill a (n + length m) res'"
    by (simp add: c)
  also have "\<dots> = Inr (take (n + length m) res' @ concat a @
      drop (n + length m + length (concat a)) res')"
    using Cons.prems l by (intro Cons.IH) simp
  also have "take (n + length m) res' = take n res @ m"
    using le by (simp add: res'_def take_append)
  also have "drop (n + length m + length (concat a)) res' = drop (n + length (concat (m # a))) res"
    using le by (simp add: res'_def ac_simps)
  finally show ?case by simp
qed

lemma concatSlices_eq: "concatSlices z a = Inr (concat a)"
  by (simp add: concatSlices_def concatLen_eq concatFill_eq)

section \<open>Trailing context and the end of DiffCut\<close>

lemma collectAfter_eq:
  "scanErr sc = None \<Longrightarrow>
   \<exists>sc'. collectAfter params i sc acc =
           (acc @ take (nat (AfterLines params - i)) (takeWhile (\<lambda>l. l \<noteq> []) (pending sc)), sc') \<and>
         Err sc' =
           (if int (length (pending sc)) < AfterLines params - i \<and> (\<forall>l \<in> set (pending sc). l \<noteq> [])
            then Err (sc\<lparr>scanErr := readErr sc\<rparr>) else None)"
proof (induction params i sc acc rule: collectAfter.induct)
  case (1 params i sc acc)
  show ?case
  proof (cases "i < AfterLines params")
    case False
    then show ?thesis using "1.prems"
      by (subst collectAfter.simps) (simp add: Err_def)
  next
    case lt: True
    show ?thesis
    proof (cases "pending sc")
      case Nil
      then show ?thesis using lt "1.prems"
        by (subst collectAfter.simps) (simp add: Scan_def)
    next
      case (Cons l ls)
      show ?thesis
      proof (cases "l = []")
        case True
        then show ?thesis using lt Cons "1.prems"
          by (subst collectAfter.simps) (simp add: Scan_def Err_def)
      next
        case False
        have sc: "Scan sc = (Some l, sc\<lparr>pending := ls\<rparr>)" using Cons by (simp add: Scan_def)
        have st: "collectAfter params i sc acc =
            collectAfter params (i + 1) (sc\<lparr>pending := ls\<rparr>) (acc @ [l])"
          using lt False sc by (subst collectAfter.simps) simp
        from "1.IH"[OF lt sc[symmetric] refl False] "1.prems" obtain sc' where
          ih: "collectAfter params (i + 1) (sc\<lparr>pending := ls\<rparr>) (acc @ [l]) =
             ((acc @ [l]) @ take (nat (AfterLines params - (i + 1))) (takeWhile (\<lambda>l. l \<noteq> []) ls), sc')"
          "Err sc' = (if int (length ls) < AfterLines params - (i + 1) \<and> (\<forall>l \<in> set ls. l \<noteq> [])
            then Err (sc\<lparr>pending := ls, scanErr := readErr sc\<rparr>) else None)"
          by (auto cong: if_cong)
        have n: "nat (AfterLines params - i) = Suc (nat (AfterLines params - (i + 1)))"
          using lt by simp
        have e: "Err (sc\<lparr>pending := ls, scanErr := readErr sc\<rparr>) = Err (sc\<lparr>scanErr := readErr sc\<rparr>)"
          by (simp add: Err_def)
        show ?thesis unfolding st ih(1) using ih(2) Cons False n e by auto
      qed
    qed
  qed
qed

lemma holds_nonneg: "holds b k xs \<Longrightarrow> 0 \<le> k" by (simp add: holds_def)

lemma finishCut_eq:
  assumes h: "holds (linesBeforeBuf st) (BeforeLines params) skipped"
    and hl: "\<forall>s \<in> set (skipped @ diffCut st). isHunkLine s"
    and ic: "inCut st"
    and se: "err st \<noteq> Some EOF \<longrightarrow> scanErr (scanner st) = None"
  shows "finishCut params st =
    (let before = drop (length skipped - nat (BeforeLines params)) skipped;
         after = (if err st = Some EOF then [] else trailing params (pending (scanner st)));
         e = (if err st = Some EOF then None else afterError params (scanner st))
     in if e \<noteq> None then Inr (zeroHunkHeader, zeroHunk, e)
        else Inr (diffCutHeader st,
                  \<lparr>HunkHeader = reconciled (diffCutHeader st) before after,
                   Lines = before @ diffCut st @ after\<rparr>,
                  None))"
proof -
  define before where "before = drop (length skipped - nat (BeforeLines params)) skipped"
  have l: "lines (linesBeforeBuf st) = Inr before"
    using holds_lines[OF h] by (simp add: before_def)
  have bne: "\<forall>s \<in> set before. s \<noteq> []"
    using hl by (auto simp: before_def dest!: in_set_dropD isHunkLine_nonempty)
  have rb: "reconcileBefore before (diffCutHeader st) = Inr (reconciled (diffCutHeader st) before [])"
    using reconcileBefore_eq[OF bne] by (simp add: reconciled_def)
  show ?thesis
  proof (cases "err st = Some EOF")
    case True
    then show ?thesis using ic l rb
      by (simp add: finishCut_def Let_def before_def[symmetric] concatSlices_eq)
  next
    case False
    with se have s0: "scanErr (scanner st) = None" by simp
    define after where "after = trailing params (pending (scanner st))"
    from collectAfter_eq[OF s0, of params 0 "[]"] obtain sc' where
      c: "collectAfter params 0 (scanner st) [] = (after, sc')"
      "Err sc' = afterError params (scanner st)"
      by (auto simp: after_def trailing_def afterError_def)
    have ane: "\<forall>s \<in> set after. s \<noteq> []"
      by (auto simp: after_def trailing_def dest!: in_set_takeD set_takeWhileD)
    have ra: "reconcileAfter after (reconciled (diffCutHeader st) before []) =
        Inr (reconciled (diffCutHeader st) before after)"
      using reconcileAfter_eq[OF ane] by (simp add: reconciled_def)
    show ?thesis using False ic l rb ra c
      by (simp add: finishCut_def Let_def before_def[symmetric] after_def[symmetric] concatSlices_eq)
  qed
qed

section \<open>From the start of the hunk to the result\<close>

lemma hunkStart_Some:
  assumes "hunkStart pf ph r = Some (h, sc)"
  shows "scanErr sc = None \<and> readErr sc = failure r \<and>
    (\<exists>pre1 fh pre2 hl. content r = pre1 @ fh # pre2 @ hl # pending sc \<and>
        (\<forall>x \<in> set pre1. \<not> pf x) \<and> pf fh \<and> (\<forall>x \<in> set pre2. ph x = None) \<and> ph hl = Some h)"
proof -
  let ?d1 = "dropWhile (\<lambda>l. \<not> pf l) (content r)"
  have "?d1 \<noteq> []"
  proof
    assume n: "?d1 = []"
    show False using assms by (simp add: hunkStart_def scanFileHeader_eq NewScanner_def n)
  qed
  then obtain fh rest1 where d1: "?d1 = fh # rest1" by (cases ?d1) auto
  let ?d2 = "dropWhile (\<lambda>l. ph l = None) rest1"
  have "?d2 \<noteq> []"
  proof
    assume n: "?d2 = []"
    show False using assms
      by (simp add: hunkStart_def scanFileHeader_eq scanHunkHeader_eq NewScanner_def d1 n)
  qed
  then obtain hl rest2 where d2: "?d2 = hl # rest2" by (cases ?d2) auto
  from assms have sc: "sc = \<lparr>pending = rest2, readErr = failure r, scanErr = None\<rparr>"
    and h: "h = the (ph hl)"
    by (auto simp: hunkStart_def scanFileHeader_eq scanHunkHeader_eq NewScanner_def d1 d2)
  have c1: "content r = takeWhile (\<lambda>l. \<not> pf l) (content r) @ fh # rest1"
    using d1 takeWhile_dropWhile_id[of "\<lambda>l. \<not> pf l" "content r"] by simp
  have c2: "rest1 = takeWhile (\<lambda>l. ph l = None) rest1 @ hl # rest2"
    using d2 takeWhile_dropWhile_id[of "\<lambda>l. ph l = None" rest1] by simp
  have pfh: "pf fh" using d1 hd_dropWhile[of "\<lambda>l. \<not> pf l" "content r"] by simp
  have phl: "ph hl \<noteq> None" using d2 hd_dropWhile[of "\<lambda>l. ph l = None" rest1] by simp
  then have phl': "ph hl = Some h" using h by auto
  have "content r = takeWhile (\<lambda>l. \<not> pf l) (content r) @ fh #
      takeWhile (\<lambda>l. ph l = None) rest1 @ hl # pending sc"
    using c1 c2 sc by simp
  moreover have "\<forall>x \<in> set (takeWhile (\<lambda>l. \<not> pf l) (content r)). \<not> pf x"
    by (auto dest: set_takeWhileD)
  moreover have "\<forall>x \<in> set (takeWhile (\<lambda>l. ph l = None) rest1). ph x = None"
    by (auto dest: set_takeWhileD)
  ultimately have "\<exists>pre1 fh pre2 hl. content r = pre1 @ fh # pre2 @ hl # pending sc \<and>
        (\<forall>x \<in> set pre1. \<not> pf x) \<and> pf fh \<and> (\<forall>x \<in> set pre2. ph x = None) \<and> ph hl = Some h"
    using pfh phl' by (intro exI[of _ "takeWhile (\<lambda>l. \<not> pf l) (content r)"] exI[of _ fh]
        exI[of _ "takeWhile (\<lambda>l. ph l = None) rest1"] exI[of _ hl]) simp
  then show ?thesis using sc by simp
qed

lemma endError_NewScanner:
  "endError (NewScanner r) =
     (case failure r of None \<Rightarrow> ErrHunkNotFound | Some EOF \<Rightarrow> ErrHunkNotFound | Some e \<Rightarrow> e)"
  by (auto simp: endError_def NewScanner_def Err_def split: option.splits error.splits)

lemma hunkStart_None:
  assumes "hunkStart pf ph r = None"
  shows "DiffCut pf ph r params = Inr (zeroHunkHeader, zeroHunk, Some (endError (NewScanner r))) \<and>
    ((\<forall>x \<in> set (content r). \<not> pf x) \<or>
     (\<forall>x \<in> set (tl (dropWhile (\<lambda>l. \<not> pf l) (content r))). ph x = None))"
proof (cases "dropWhile (\<lambda>l. \<not> pf l) (content r)")
  case Nil
  have "\<forall>x \<in> set (content r). \<not> pf x" using Nil by simp
  then show ?thesis
    by (simp add: DiffCut_def scanFileHeader_eq NewScanner_def Nil)
next
  case (Cons fh rest1)
  show ?thesis
  proof (cases "dropWhile (\<lambda>l. ph l = None) rest1")
    case Nil
    have "\<forall>x \<in> set rest1. ph x = None" using Nil by simp
    then show ?thesis
      by (simp add: DiffCut_def scanFileHeader_eq scanHunkHeader_eq NewScanner_def endError_def
            Err_def Cons Nil)
  next
    case c2: (Cons hl rest2)
    have False using assms
      by (simp add: hunkStart_def scanFileHeader_eq scanHunkHeader_eq NewScanner_def Cons c2)
    then show ?thesis ..
  qed
qed

lemma hunkStart_absent:
  "(\<forall>x \<in> set (content r). \<not> pf x) \<or>
     (\<forall>x \<in> set (tl (dropWhile (\<lambda>l. \<not> pf l) (content r))). ph x = None)
   \<Longrightarrow> hunkStart pf ph r = None"
proof (cases "dropWhile (\<lambda>l. \<not> pf l) (content r)")
  case Nil
  show ?thesis
    by (simp add: hunkStart_def scanFileHeader_eq NewScanner_def Nil)
next
  case (Cons fh rest1)
  assume a: "(\<forall>x \<in> set (content r). \<not> pf x) \<or>
     (\<forall>x \<in> set (tl (dropWhile (\<lambda>l. \<not> pf l) (content r))). ph x = None)"
  have "\<not> (\<forall>x \<in> set (content r). \<not> pf x)"
  proof
    assume "\<forall>x \<in> set (content r). \<not> pf x"
    then have "dropWhile (\<lambda>l. \<not> pf l) (content r) = []" by simp
    with Cons show False by simp
  qed
  with a Cons have "\<forall>x \<in> set rest1. ph x = None" by simp
  then have d2: "dropWhile (\<lambda>l. ph l = None) rest1 = []" by simp
  show ?thesis
    by (simp add: hunkStart_def scanFileHeader_eq scanHunkHeader_eq NewScanner_def Cons d2)
qed

lemma DiffCut_start:
  assumes "hunkStart pf ph r = Some (h, sc)"
  shows "DiffCut pf ph r params =
    (case newStrCircBuf (BeforeLines params) of
       Inl pn \<Rightarrow> Inl pn
     | Inr buf \<Rightarrow>
         (case cutLoop params (initLoopState h sc buf) of
            Inl pn \<Rightarrow> Inl pn
          | Inr (Returned, st) \<Rightarrow> Inr (zeroHunkHeader, zeroHunk, err st)
          | Inr (Broke, st) \<Rightarrow> finishCut params st))"
  using assms
  by (auto simp: hunkStart_def DiffCut_def split: prod.splits option.splits)

lemma init_loopInv:
  assumes "hunkStart pf ph r = Some (h, sc)" "newStrCircBuf (BeforeLines params) = Inr buf"
  shows "loopInv params h sc [] (initLoopState h sc buf)"
proof -
  have k: "0 \<le> BeforeLines params" using assms(2) by (simp add: newStrCircBuf_def split: if_splits)
  from holds_new[OF k assms(2)] hunkStart_Some[OF assms(1)] show ?thesis
    by (simp add: loopInv_def progress_def initLoopState_def snapshot_def)
qed

lemma cutLoop_from_start:
  assumes "hunkStart pf ph r = Some (h, sc)" "newStrCircBuf (BeforeLines params) = Inr buf"
  shows "\<exists>ex st skipped. cutLoop params (initLoopState h sc buf) = Inr (ex, st) \<and>
           loopExit params h sc skipped ex st"
  using cutLoop_exit[OF init_loopInv[OF assms]] .

lemma progress_common:
  assumes "progress params h sc skipped counted st"
  shows "readErr (scanner st) = readErr sc"
    "holds (linesBeforeBuf st) (BeforeLines params) skipped"
    "\<forall>s \<in> set (skipped @ diffCut st). isHunkLine s"
    "inCut st = (diffCut st \<noteq> [])"
    "diffCutHeader st = snapshot h skipped (diffCut st)"
    "\<forall>i < length skipped. below params h (take i skipped)"
    "diffCut st \<noteq> [] \<longrightarrow> \<not> below params h skipped"
    "\<forall>i < length (skipped @ diffCut st). \<not> beyond params h (take i (skipped @ diffCut st))"
  using assms by (simp_all add: progress_def)

lemma broke_progress:
  assumes "loopExit params h sc skipped Broke st"
  shows "\<exists>counted. progress params h sc skipped counted st"
  using assms
  by (auto simp: loopExit_def guardExit_def safetyExit_def terminatorExit_def loopInv_def)

lemma broke_length:
  assumes "loopExit params h sc skipped Broke st"
  shows "int (length (diffCut st)) \<le> max 0 (LineLimit params) + 1"
  using assms
  by (auto simp: loopExit_def guardExit_def safetyExit_def terminatorExit_def loopInv_def)

lemma broke_err:
  assumes "loopExit params h sc skipped Broke st"
  shows "err st = None \<and> scanErr (scanner st) = None \<and>
           pending sc = skipped @ diffCut st @ pending (scanner st) \<or>
         err st = Some EOF \<and> (\<exists>rest. pending sc = skipped @ diffCut st @ rest)"
  using assms
  by (auto simp: loopExit_def guardExit_def safetyExit_def terminatorExit_def loopInv_def)

lemma returned_err:
  assumes "loopExit params h sc skipped Returned st"
  shows "err st \<noteq> None"
  using assms by (auto simp: loopExit_def returnExit_def)

lemma trailing_prefix: "\<exists>rest. ls = trailing params ls @ rest"
proof -
  let ?tw = "takeWhile (\<lambda>l. l \<noteq> []) ls"
  let ?n = "nat (AfterLines params)"
  have "(take ?n ?tw @ drop ?n ?tw) @ dropWhile (\<lambda>l. l \<noteq> []) ls = ls"
    by (simp only: append_take_drop_id takeWhile_dropWhile_id)
  then have "ls = trailing params ls @ (drop ?n ?tw @ dropWhile (\<lambda>l. l \<noteq> []) ls)"
    by (simp only: trailing_def append_assoc)
  then show ?thesis by (rule exI)
qed

lemma trailing_length: "int (length (trailing params ls)) \<le> max 0 (AfterLines params)"
  by (simp add: trailing_def)

lemma trailing_nonempty: "\<forall>s \<in> set (trailing params ls). s \<noteq> []"
  by (auto simp: trailing_def dest!: in_set_takeD set_takeWhileD)

text \<open>The lines of leading context and of trailing context behind a final loop state.\<close>

lemma DiffCut_broke:
  assumes hs: "hunkStart pf ph r = Some (h, sc)"
    and nb: "newStrCircBuf (BeforeLines params) = Inr buf"
    and cl: "cutLoop params (initLoopState h sc buf) = Inr (Broke, st)"
    and le: "loopExit params h sc skipped Broke st"
  shows "DiffCut pf ph r params =
    (if diffCut st = [] then Inr (zeroHunkHeader, zeroHunk, Some ErrHunkNotFound)
     else
       let before = drop (length skipped - nat (BeforeLines params)) skipped;
           after = (if err st = Some EOF then [] else trailing params (pending (scanner st)));
           e = (if err st = Some EOF then None else afterError params (scanner st))
       in if e \<noteq> None then Inr (zeroHunkHeader, zeroHunk, e)
          else Inr (snapshot h skipped (diffCut st),
                    \<lparr>HunkHeader = reconciled (snapshot h skipped (diffCut st)) before after,
                     Lines = before @ diffCut st @ after\<rparr>,
                    None))"
proof -
  from broke_progress[OF le] obtain counted where pr: "progress params h sc skipped counted st"
    by blast
  note c = progress_common[OF pr]
  have d: "DiffCut pf ph r params = finishCut params st"
    using DiffCut_start[OF hs, of params] nb cl by simp
  show ?thesis
  proof (cases "diffCut st = []")
    case True
    with c(4) have "\<not> inCut st" by simp
    then show ?thesis using d True by (simp add: finishCut_def)
  next
    case False
    with c(4) have ic: "inCut st" by simp
    have se: "err st \<noteq> Some EOF \<longrightarrow> scanErr (scanner st) = None"
      using broke_err[OF le] by auto
    show ?thesis unfolding d finishCut_eq[OF c(2) c(3) ic se] c(5) using False by simp
  qed
qed

lemma DiffCut_success:
  assumes "DiffCut pf ph r params = Inr (hh, hunk, None)"
  shows "\<exists>h sc buf st skipped.
    hunkStart pf ph r = Some (h, sc) \<and> newStrCircBuf (BeforeLines params) = Inr buf \<and>
    cutLoop params (initLoopState h sc buf) = Inr (Broke, st) \<and>
    loopExit params h sc skipped Broke st \<and> diffCut st \<noteq> [] \<and>
    hh = snapshot h skipped (diffCut st) \<and>
    hunk = \<lparr>HunkHeader = reconciled hh (drop (length skipped - nat (BeforeLines params)) skipped)
                (if err st = Some EOF then [] else trailing params (pending (scanner st))),
            Lines = drop (length skipped - nat (BeforeLines params)) skipped @ diffCut st @
                (if err st = Some EOF then [] else trailing params (pending (scanner st)))\<rparr>"
proof (cases "hunkStart pf ph r")
  case None
  from hunkStart_None[OF None, of params] assms show ?thesis by simp
next
  case (Some a)
  then obtain h sc where hs: "hunkStart pf ph r = Some (h, sc)" by (cases a) auto
  show ?thesis
  proof (cases "newStrCircBuf (BeforeLines params)")
    case (Inl pn)
    with DiffCut_start[OF hs, of params] assms show ?thesis by simp
  next
    case (Inr buf)
    from cutLoop_from_start[OF hs Inr] obtain ex st skipped where
      cl: "cutLoop params (initLoopState h sc buf) = Inr (ex, st)"
      and le: "loopExit params h sc skipped ex st" by blast
    show ?thesis
    proof (cases ex)
      case Returned
      with DiffCut_start[OF hs, of params] Inr cl assms returned_err[of params h sc skipped st] le
      show ?thesis by simp
    next
      case Broke
      note b = DiffCut_broke[OF hs Inr cl[unfolded Broke] le[unfolded Broke]]
      have ne: "diffCut st \<noteq> []" using b assms by (auto split: if_splits)
      from b assms ne have
        "hh = snapshot h skipped (diffCut st)"
        "hunk = \<lparr>HunkHeader = reconciled hh (drop (length skipped - nat (BeforeLines params)) skipped)
                (if err st = Some EOF then [] else trailing params (pending (scanner st))),
            Lines = drop (length skipped - nat (BeforeLines params)) skipped @ diffCut st @
                (if err st = Some EOF then [] else trailing params (pending (scanner st)))\<rparr>"
        by (auto simp: Let_def split: if_splits)
      with hs Inr cl le Broke ne show ?thesis by blast
    qed
  qed
qed

section \<open>The claims\<close>

lemma sample_run:
  "DiffCut sampleFileHeader sampleHunkHeader sampleReader sampleParams =
     Inr (\<lparr>OldLine = 6, OldSpan = 1, NewLine = 6, NewSpan = 0\<rparr>,
          \<lparr>HunkHeader = \<lparr>OldLine = 5, OldSpan = 2, NewLine = 5, NewSpan = 2\<rparr>,
           Lines = ['' a'', ''-b'', ''+c'']\<rparr>, None)"
  by code_simp

lemma sample_start:
  "hunkStart sampleFileHeader sampleHunkHeader sampleReader = Some (sampleHeader, sampleBody)"
  by code_simp

text \<open>
  Claim C10. Whenever \<open>DiffCut\<close> returns a non-nil error, in whichever phase it arises,
  the returned exact-window header is the zero header and the returned hunk is the zero
  hunk (zero header, no lines).
\<close>

theorem error_returns_zero_values:
  "DiffCut pf ph r params = Inr (hh, hunk, Some e) \<Longrightarrow> hh = zeroHunkHeader \<and> hunk = zeroHunk"
  by (auto simp: DiffCut_def finishCut_def Let_def
      split: prod.splits option.splits sum.splits LoopExit.splits if_splits)

theorem error_returns_zero_values_witness:
  "\<exists>hh hunk.
     DiffCut sampleFileHeader sampleHunkHeader
       (sampleReader\<lparr>content := take 6 (content sampleReader),
                     failure := Some (ErrRead ''connection reset'')\<rparr>) sampleParams
       = Inr (hh, hunk, Some (ErrRead ''connection reset'')) \<and>
     hh = \<lparr>OldLine = 0, OldSpan = 0, NewLine = 0, NewSpan = 0\<rparr> \<and>
     hunk = \<lparr>HunkHeader = \<lparr>OldLine = 0, OldSpan = 0, NewLine = 0, NewSpan = 0\<rparr>, Lines = []\<rparr>"
proof -
  have run: "DiffCut sampleFileHeader sampleHunkHeader
       (sampleReader\<lparr>content := take 6 (content sampleReader),
                     failure := Some (ErrRead ''connection reset'')\<rparr>) sampleParams
       = Inr (zeroHunkHeader, zeroHunk, Some (ErrRead ''connection reset''))"
    by code_simp
  from error_returns_zero_values [OF run] run show ?thesis
    by (simp add: zeroHunkHeader_def zeroHunk_def)
qed

text \<open>
  Claim C1. For every successful \<open>DiffCut\<close> invocation the header of the returned hunk
  satisfies the span reconciliation law: \<open>OldSpan\<close> is the number of lines of \<open>Lines\<close>
  whose first byte is not \<open>+\<close>, \<open>NewSpan\<close> the number of those whose first byte is not
  \<open>-\<close>; every returned line has a first byte.
\<close>

theorem span_reconciliation:
  assumes "DiffCut pf ph r params = Inr (hh, hunk, None)"
  shows "OldSpan (HunkHeader hunk) =
           int (length (filter (\<lambda>s. byte0 s \<noteq> Inr actionAdded) (Lines hunk))) \<and>
         NewSpan (HunkHeader hunk) =
           int (length (filter (\<lambda>s. byte0 s \<noteq> Inr actionRemoved) (Lines hunk))) \<and>
         (\<forall>s \<in> set (Lines hunk). s \<noteq> [])"
proof -
  from DiffCut_success[OF assms] obtain h sc buf st skipped where
    le: "loopExit params h sc skipped Broke st" and ne: "diffCut st \<noteq> []"
    and hh: "hh = snapshot h skipped (diffCut st)"
    and hunk: "hunk = \<lparr>HunkHeader = reconciled hh (drop (length skipped - nat (BeforeLines params)) skipped)
                (if err st = Some EOF then [] else trailing params (pending (scanner st))),
            Lines = drop (length skipped - nat (BeforeLines params)) skipped @ diffCut st @
                (if err st = Some EOF then [] else trailing params (pending (scanner st)))\<rparr>"
    by blast
  from broke_progress[OF le] obtain counted where pr: "progress params h sc skipped counted st"
    by blast
  note c = progress_common[OF pr]
  have sp: "OldSpan hh = oldCount (diffCut st)" "NewSpan hh = newCount (diffCut st)"
    using hh ne by (simp_all add: snapshot_def)
  have "OldSpan (HunkHeader hunk) = oldCount (Lines hunk)"
    "NewSpan (HunkHeader hunk) = newCount (Lines hunk)"
    using sp by (simp_all add: hunk reconciled_def)
  moreover have "\<forall>s \<in> set (Lines hunk). s \<noteq> []"
    using c(3) trailing_nonempty[of params "pending (scanner st)"]
    by (auto simp: hunk dest!: in_set_dropD dest: isHunkLine_nonempty)
  ultimately show ?thesis by (simp add: oldCount_def newCount_def)
qed

theorem span_reconciliation_witness:
  "\<exists>hh hunk.
     DiffCut sampleFileHeader sampleHunkHeader sampleReader sampleParams = Inr (hh, hunk, None) \<and>
     Lines hunk = ['' a'', ''-b'', ''+c''] \<and>
     OldSpan (HunkHeader hunk) = 2 \<and> NewSpan (HunkHeader hunk) = 2"
  using span_reconciliation [OF sample_run] sample_run by simp



lemma counts_positive: "ct \<noteq> [] \<Longrightarrow> 0 < oldCount ct + newCount ct"
proof (induction ct)
  case Nil
  then show ?case by simp
next
  case (Cons s ss)
  have "0 < oldCount [s] + newCount [s]"
    by (auto simp: oldCount_single newCount_single)
  moreover have "0 \<le> oldCount ss" "0 \<le> newCount ss"
    by (rule oldCount_nonneg, rule newCount_nonneg)
  ultimately show ?case
    using oldCount_Cons[of s ss] newCount_Cons[of s ss] by linarith
qed

lemma clean_endError:
  "failure r = None \<or> failure r = Some EOF \<Longrightarrow> endError (NewScanner r) = ErrHunkNotFound"
  by (auto simp: endError_NewScanner)

lemma clean_afterError:
  "readErr sc = None \<or> readErr sc = Some EOF \<Longrightarrow> afterError params sc = None"
  by (auto simp: afterError_def Err_def)

lemma clean_returned:
  assumes "loopExit params h sc skipped Returned st" "readErr sc = None \<or> readErr sc = Some EOF"
  shows "err st = Some ErrHunkNotFound"
  using assms by (auto simp: loopExit_def returnExit_def)




lemma exit_length:
  assumes "loopExit params h sc skipped ex st"
  shows "int (length (diffCut st)) \<le> max 0 (LineLimit params) + 1"
  using assms
  by (cases ex)
     (auto simp: loopExit_def guardExit_def safetyExit_def terminatorExit_def returnExit_def
        loopInv_def)

lemma exit_over_limit:
  assumes "loopExit params h sc skipped ex st" "diffCut st \<noteq> []"
    "int (length (diffCut st)) > LineLimit params"
  shows "ex = Broke \<and> safetyExit params h sc skipped st"
  using assms
  by (cases ex)
     (auto simp: loopExit_def guardExit_def terminatorExit_def returnExit_def loopInv_def)

lemma loopBody_diffCut:
  "loopBody q st = Inr f \<Longrightarrow>
   \<exists>x. diffCut (case f of Continue s \<Rightarrow> s | Break s \<Rightarrow> s | Return s \<Rightarrow> s) = diffCut st @ x"
  by (auto simp: loopBody_def Let_def split: if_splits prod.splits sum.splits)

lemma cutLoop_diffCut:
  "cutLoop q st = Inr (ex, sf) \<Longrightarrow> \<exists>more. diffCut sf = diffCut st @ more"
proof (induction q st rule: cutLoop.induct)
  case (1 q st)
  show ?case
  proof (cases "loopBody q st")
    case (Inl pn)
    with "1.prems" show ?thesis by (subst (asm) cutLoop.simps) simp
  next
    case (Inr f)
    from loopBody_diffCut[OF Inr] obtain x where
      x: "diffCut (case f of Continue s \<Rightarrow> s | Break s \<Rightarrow> s | Return s \<Rightarrow> s) = diffCut st @ x"
      by blast
    show ?thesis
    proof (cases f)
      case (Continue s)
      have "cutLoop q st = cutLoop q s"
        using Inr Continue by (subst cutLoop.simps) simp
      with "1.IH"[OF Inr Continue] "1.prems" obtain more where "diffCut sf = diffCut s @ more"
        by auto
      with x Continue show ?thesis by simp
    next
      case (Break s)
      have "cutLoop q st = Inr (Broke, s)"
        using Inr Break by (subst cutLoop.simps) simp
      with "1.prems" x Break show ?thesis by simp
    next
      case (Return s)
      have "cutLoop q st = Inr (Returned, s)"
        using Inr Return by (subst cutLoop.simps) simp
      with "1.prems" x Return show ?thesis by simp
    qed
  qed
qed

lemma exceededRange_limit [simp]:
  "exceededRange (p\<lparr>LineLimit := m\<rparr>) st = exceededRange p st"
  by (simp add: exceededRange_def)

lemma notYetInRange_limit [simp]:
  "notYetInRange (p\<lparr>LineLimit := m\<rparr>) st = notYetInRange p st"
  by (simp add: notYetInRange_def)

lemma cutLoop_limit_sim:
  "LineLimit p \<le> m \<Longrightarrow> loopInv p h sc0 skipped st \<Longrightarrow>
    cutLoop p st = Inr (ex, sf) \<Longrightarrow> cutLoop (p\<lparr>LineLimit := m\<rparr>) st = Inr (ex', sf') \<Longrightarrow>
    ex' = ex \<and> sf' = sf \<or>
    diffCut sf \<noteq> [] \<and> int (length (diffCut sf)) > LineLimit p \<and>
      (\<exists>more. diffCut sf' = diffCut sf @ more)"
proof (induction p st arbitrary: skipped rule: cutLoop.induct)
  case (1 p st)
  note lm = "1.prems"(1)
  note inv = "1.prems"(2)
  note run = "1.prems"(3)
  note run' = "1.prems"(4)
  let ?p' = "p\<lparr>LineLimit := m\<rparr>"
  have same: "ex' = ex \<and> sf' = sf"
    if "loopBody ?p' st = loopBody p st" "\<And>s. loopBody p st \<noteq> Inr (Continue s)"
  proof -
    have a: "cutLoop p st =
        (case loopBody p st of
           Inl pn \<Rightarrow> Inl pn
         | Inr (Continue st') \<Rightarrow> cutLoop p st'
         | Inr (Break st') \<Rightarrow> Inr (Broke, st')
         | Inr (Return st') \<Rightarrow> Inr (Returned, st'))"
      by (rule cutLoop.simps)
    have a': "cutLoop ?p' st =
        (case loopBody ?p' st of
           Inl pn \<Rightarrow> Inl pn
         | Inr (Continue st') \<Rightarrow> cutLoop ?p' st'
         | Inr (Break st') \<Rightarrow> Inr (Broke, st')
         | Inr (Return st') \<Rightarrow> Inr (Returned, st'))"
      by (rule cutLoop.simps)
    have "cutLoop ?p' st = cutLoop p st"
      unfolding a a' using that by (auto split: sum.splits Flow.splits)
    with run run' show ?thesis by simp
  qed
  show ?case
  proof (cases "exceededRange p st")
    case True
    have "loopBody ?p' st = loopBody p st" "\<And>s. loopBody p st \<noteq> Inr (Continue s)"
      using True by (simp_all add: loopBody_guard)
    from same[OF this] show ?thesis by simp
  next
    case g: False
    then have g': "\<not> exceededRange ?p' st" by simp
    show ?thesis
    proof (cases "pending (scanner st)")
      case Nil
      have "loopBody ?p' st = loopBody p st" "\<And>s. loopBody p st \<noteq> Inr (Continue s)"
        using loopBody_end[OF g Nil] loopBody_end[OF g' Nil]
        by (simp_all split: option.splits)
      from same[OF this] show ?thesis by simp
    next
      case (Cons t rest)
      show ?thesis
      proof (cases "isHunkLine t")
        case False
        show ?thesis
        proof (cases "t = []")
          case True
          have "loopBody ?p' st = loopBody p st" "\<And>s. loopBody p st \<noteq> Inr (Continue s)"
            using loopBody_empty[OF g Cons[unfolded True]] loopBody_empty[OF g' Cons[unfolded True]]
            by simp_all
          from same[OF this] show ?thesis by simp
        next
          case ne: False
          have "loopBody ?p' st = loopBody p st" "\<And>s. loopBody p st \<noteq> Inr (Continue s)"
            using loopBody_terminator[OF g Cons ne False] loopBody_terminator[OF g' Cons ne False]
            by simp_all
          from same[OF this] show ?thesis by simp
        qed
      next
        case t: True
        show ?thesis
        proof (cases "notYetInRange p st")
          case True
          then have n': "notYetInRange ?p' st" by simp
          from step_skip[OF inv g Cons t True] obtain s where
            s: "loopBody p st = Inr (Continue s)" "loopInv p h sc0 (skipped @ [t]) s" by blast
          have "loopBody ?p' st = loopBody p st"
            using loopBody_skip[OF g Cons t True] loopBody_skip[OF g' Cons t n'] by simp
          with s(1) have s': "loopBody ?p' st = Inr (Continue s)" by simp
          have "cutLoop p st = cutLoop p s" using s(1) by (subst cutLoop.simps) simp
          moreover have "cutLoop ?p' st = cutLoop ?p' s" using s' by (subst cutLoop.simps) simp
          ultimately show ?thesis using "1.IH"[OF s(1) refl lm s(2)] run run' by simp
        next
          case n: False
          then have n': "\<not> notYetInRange ?p' st" by simp
          define st1 where
            "st1 = includeLine t (hd t) (st\<lparr>scanner := (scanner st)\<lparr>pending := rest\<rparr>, err := None\<rparr>)"
          have body: "loopBody p st =
              (if int (length (diffCut st1)) > LineLimit p then Inr (Break st1)
               else Inr (Continue (incrementLineNumbers (hd t) st1)))"
            using loopBody_include[OF g Cons t n] by (simp add: st1_def Let_def)
          have body': "loopBody ?p' st =
              (if int (length (diffCut st1)) > m then Inr (Break st1)
               else Inr (Continue (incrementLineNumbers (hd t) st1)))"
            using loopBody_include[OF g' Cons t n'] by (simp add: st1_def Let_def)
          show ?thesis
          proof (cases "int (length (diffCut st1)) > LineLimit p")
            case False
            with lm have nm: "\<not> int (length (diffCut st1)) > m" by simp
            define s where "s = incrementLineNumbers (hd t) st1"
            have b: "loopBody p st = Inr (Continue s)" using body False by (simp add: s_def)
            have b': "loopBody ?p' st = Inr (Continue s)" using body' nm by (simp add: s_def)
            from step_include[OF inv g Cons t n] b have si: "loopInv p h sc0 skipped s" by auto
            have "cutLoop p st = cutLoop p s" using b by (subst cutLoop.simps) simp
            moreover have "cutLoop ?p' st = cutLoop ?p' s" using b' by (subst cutLoop.simps) simp
            ultimately show ?thesis using "1.IH"[OF b refl lm si] run run' by simp
          next
            case True
            have "cutLoop p st = Inr (Broke, st1)"
              using body True by (subst cutLoop.simps) simp
            with run have sf: "sf = st1" "ex = Broke" by simp_all
            have ne: "diffCut st1 \<noteq> []" by (simp add: st1_def)
            have "\<exists>more. diffCut sf' = diffCut st1 @ more"
            proof (cases "int (length (diffCut st1)) > m")
              case True
              have "cutLoop ?p' st = Inr (Broke, st1)"
                using body' True by (subst cutLoop.simps) simp
              with run' show ?thesis by simp
            next
              case False
              have "cutLoop ?p' st = cutLoop ?p' (incrementLineNumbers (hd t) st1)"
                using body' False by (subst cutLoop.simps) simp
              with run' cutLoop_diffCut[of ?p' "incrementLineNumbers (hd t) st1" ex' sf']
              show ?thesis by simp
            qed
            with sf ne True show ?thesis by simp
          qed
        qed
      qed
    qed
  qed
qed


lemma sample_limit_loop:
  "cutLoop sampleLimitParams
     (initLoopState sampleHeader sampleBody \<lparr>head = - 1, entries = [], cap = 0\<rparr>)
   = Inr (Broke,
       \<lparr>scanner = \<lparr>pending = [''+d'', '' e''], readErr = None, scanErr = None\<rparr>,
        err = None, currentOldLine = 7, currentNewLine = 6, inCut = True,
        diffCutHeader = \<lparr>OldLine = 6, OldSpan = 1, NewLine = 6, NewSpan = 1\<rparr>,
        diffCut = [''-b'', ''+c''],
        linesBeforeBuf = \<lparr>head = - 1, entries = [], cap = 0\<rparr>\<rparr>)"
  by code_simp

lemma sample_limit_buf:
  "newStrCircBuf (BeforeLines sampleLimitParams) = Inr \<lparr>head = - 1, entries = [], cap = 0\<rparr>"
  by code_simp

text \<open>
  Claim C4, amended. The cut accumulated by the scan loop never has more than
  \<open>LineLimit + 1\<close> lines (one line when \<open>LineLimit\<close> is negative), whether the loop is left
  by \<open>break\<close> or by \<open>return\<close>; on success these are the lines of \<open>Lines\<close> between the
  at most \<open>BeforeLines\<close> lines of leading and the at most \<open>AfterLines\<close> lines of trailing
  context.
\<close>

theorem cut_at_most_limit_plus_one:
  assumes hs: "hunkStart pf ph r = Some (h, sc)"
    and nb: "newStrCircBuf (BeforeLines params) = Inr buf"
    and cl: "cutLoop params (initLoopState h sc buf) = Inr (ex, st)"
  shows "int (length (diffCut st)) \<le> max 0 (LineLimit params) + 1 \<and>
         (0 \<le> LineLimit params \<longrightarrow> int (length (diffCut st)) \<le> LineLimit params + 1) \<and>
         (\<forall>hh hunk. DiffCut pf ph r params = Inr (hh, hunk, None) \<longrightarrow>
            (\<exists>before after. Lines hunk = before @ diffCut st @ after \<and>
               int (length before) \<le> BeforeLines params \<and>
               int (length after) \<le> max 0 (AfterLines params)))"
proof -
  from cutLoop_from_start[OF hs nb] cl obtain skipped where
    le: "loopExit params h sc skipped ex st" by auto
  have a: "int (length (diffCut st)) \<le> max 0 (LineLimit params) + 1"
    by (rule exit_length[OF le])
  then have b: "0 \<le> LineLimit params \<longrightarrow> int (length (diffCut st)) \<le> LineLimit params + 1"
    by (auto simp: max_def)
  have k: "0 \<le> BeforeLines params" using nb by (simp add: newStrCircBuf_def split: if_splits)
  have c: "\<forall>hh hunk. DiffCut pf ph r params = Inr (hh, hunk, None) \<longrightarrow>
            (\<exists>before after. Lines hunk = before @ diffCut st @ after \<and>
               int (length before) \<le> BeforeLines params \<and>
               int (length after) \<le> max 0 (AfterLines params))"
  proof (intro allI impI)
    fix hh hunk
    assume ok: "DiffCut pf ph r params = Inr (hh, hunk, None)"
    from DiffCut_success[OF ok] hs nb cl obtain skipped' where
      hunk: "Lines hunk = drop (length skipped' - nat (BeforeLines params)) skipped' @ diffCut st @
                (if err st = Some EOF then [] else trailing params (pending (scanner st)))"
      by auto
    let ?before = "drop (length skipped' - nat (BeforeLines params)) skipped'"
    let ?after = "if err st = Some EOF then [] else trailing params (pending (scanner st))"
    have "int (length ?before) \<le> BeforeLines params" using k by auto
    moreover have "int (length ?after) \<le> max 0 (AfterLines params)"
      using trailing_length[of params "pending (scanner st)"] by simp
    ultimately show "\<exists>before after. Lines hunk = before @ diffCut st @ after \<and>
               int (length before) \<le> BeforeLines params \<and>
               int (length after) \<le> max 0 (AfterLines params)"
      using hunk by blast
  qed
  from a b c show ?thesis by (intro conjI)
qed

theorem cut_at_most_limit_plus_one_witness:
  "\<exists>st. cutLoop sampleLimitParams
          (initLoopState sampleHeader sampleBody \<lparr>head = - 1, entries = [], cap = 0\<rparr>)
          = Inr (Broke, st) \<and>
        diffCut st = [''-b'', ''+c''] \<and>
        int (length (diffCut st)) \<le> max 0 (LineLimit sampleLimitParams) + 1"
  using cut_at_most_limit_plus_one [OF sample_start sample_limit_buf sample_limit_loop]
    sample_limit_loop
  by simp

theorem cut_within_limit_counterexample:
  "DiffCut sampleFileHeader sampleHunkHeader sampleReader sampleLimitParams
     = Inr (\<lparr>OldLine = 6, OldSpan = 1, NewLine = 6, NewSpan = 1\<rparr>,
            \<lparr>HunkHeader = \<lparr>OldLine = 6, OldSpan = 1, NewLine = 6, NewSpan = 1\<rparr>,
             Lines = [''-b'', ''+c'']\<rparr>, None) \<and>
   diffCut (snd (projr
     (cutLoop sampleLimitParams
        (initLoopState sampleHeader sampleBody \<lparr>head = - 1, entries = [], cap = 0\<rparr>))))
     = [''-b'', ''+c''] \<and>
   LineLimit sampleLimitParams = 1 \<and>
   \<not> int (length [''-b'', ''+c'']) \<le> LineLimit sampleLimitParams"
  by code_simp



lemma good_prefix:
  assumes eq: "xs @ t # ys = zs @ ws"
    and xs: "\<forall>s \<in> set xs. P s" and t: "\<not> P t" and zs: "\<forall>s \<in> set zs. P s"
  shows "length zs \<le> length xs \<and> zs = take (length zs) xs \<and> ws = drop (length zs) xs @ t # ys"
proof -
  have "takeWhile P (xs @ t # ys) = xs" using xs t by (simp add: takeWhile_append2)
  moreover have "takeWhile P (zs @ ws) = zs @ takeWhile P ws" using zs by (simp add: takeWhile_append2)
  ultimately have x: "xs = zs @ takeWhile P ws" using eq by simp
  then have l: "length zs \<le> length xs" by (metis le_add1 length_append)
  from x have tk: "zs = take (length zs) xs" by (metis append_eq_conv_conj)
  from x have dr: "drop (length zs) xs = takeWhile P ws" by (metis append_eq_conv_conj)
  from eq x have "zs @ takeWhile P ws @ t # ys = zs @ ws" by simp
  then have "ws = takeWhile P ws @ t # ys" by simp
  with dr have "ws = drop (length zs) xs @ t # ys" by simp
  with l tk show ?thesis by simp
qed

lemma first_bad:
  assumes eq: "xs @ t # ys = zs @ t' # ws"
    and xs: "\<forall>s \<in> set xs. P s" and t: "\<not> P t" and zs: "\<forall>s \<in> set zs. P s" and t': "\<not> P t'"
  shows "zs = xs \<and> t' = t \<and> ws = ys"
proof -
  have "takeWhile P (xs @ t # ys) = xs" using xs t by (simp add: takeWhile_append2)
  moreover have "takeWhile P (zs @ t' # ws) = zs" using zs t' by (simp add: takeWhile_append2)
  ultimately have "zs = xs" using eq by simp
  with eq show ?thesis by simp
qed

lemma no_bad:
  assumes eq: "xs @ t # ys = zs" and t: "\<not> P t" and zs: "\<forall>s \<in> set zs. P s"
  shows False
proof -
  have "t \<in> set zs" using eq by auto
  with t zs show False by blast
qed







lemma sample_safety_buf:
  "newStrCircBuf (BeforeLines sampleSafetyParams) = Inr \<lparr>head = - 1, entries = [], cap = 1\<rparr>"
  by code_simp

lemma sample_safety_loop:
  "cutLoop sampleSafetyParams
     (initLoopState sampleHeader sampleBody \<lparr>head = - 1, entries = [], cap = 1\<rparr>)
   = Inr (Broke,
       \<lparr>scanner = \<lparr>pending = [''+c'', ''+d'', '' e''], readErr = None, scanErr = None\<rparr>,
        err = None, currentOldLine = 6, currentNewLine = 6, inCut = True,
        diffCutHeader = \<lparr>OldLine = 6, OldSpan = 1, NewLine = 6, NewSpan = 0\<rparr>,
        diffCut = [''-b''],
        linesBeforeBuf = \<lparr>head = 0, entries = ['' a''], cap = 1\<rparr>\<rparr>)"
  by code_simp

lemma sample_safety_run:
  "DiffCut sampleFileHeader sampleHunkHeader sampleReader sampleSafetyParams
     = Inr (\<lparr>OldLine = 6, OldSpan = 1, NewLine = 6, NewSpan = 0\<rparr>,
            \<lparr>HunkHeader = \<lparr>OldLine = 5, OldSpan = 2, NewLine = 5, NewSpan = 2\<rparr>,
             Lines = ['' a'', ''-b'', ''+c'']\<rparr>, None)"
  by code_simp



lemma notYetInRange_below_any:
  "progress params h sc0 skipped counted st \<Longrightarrow> notYetInRange q st = below q h counted"
  by (auto simp: progress_def notYetInRange_def below_def)

lemma loopBody_start_cong:
  assumes "notYetInRange (p\<lparr>LineStart := b, LineStartNew := nw\<rparr>) st = notYetInRange p st"
  shows "loopBody (p\<lparr>LineStart := b, LineStartNew := nw\<rparr>) st = loopBody p st"
proof -
  have e: "exceededRange (p\<lparr>LineStart := b, LineStartNew := nw\<rparr>) s = exceededRange p s" for s
    by (simp add: exceededRange_def)
  have n: "notYetInRange q (st\<lparr>scanner := sc, err := e\<rparr>) = notYetInRange q st" for q sc e
    by (simp add: notYetInRange_def)
  show ?thesis
    by (auto simp: loopBody_def e Let_def n assms split: prod.splits sum.splits)
qed

lemma continue_inv:
  assumes inv: "loopInv p h sc0 skipped st" and c: "loopBody p st = Inr (Continue st')"
  shows "\<exists>skipped'. loopInv p h sc0 skipped' st'"
proof (cases "exceededRange p st")
  case True
  with c show ?thesis by (simp add: loopBody_guard)
next
  case g: False
  show ?thesis
  proof (cases "pending (scanner st)")
    case Nil
    from step_end[OF inv g Nil] c show ?thesis by auto
  next
    case (Cons t rest)
    show ?thesis
    proof (cases "isHunkLine t")
      case False
      show ?thesis
      proof (cases "t = []")
        case True
        from step_empty[OF inv g Cons[unfolded True]] c show ?thesis by auto
      next
        case ne: False
        from step_terminator[OF inv g Cons ne False] c show ?thesis by auto
      qed
    next
      case t: True
      show ?thesis
      proof (cases "notYetInRange p st")
        case True
        from step_skip[OF inv g Cons t True] c show ?thesis by auto
      next
        case False
        from step_include[OF inv g Cons t False] c show ?thesis by auto
      qed
    qed
  qed
qed

lemma cutLoop_start_sim:
  "\<forall>i \<le> length (pending sc0).
      below (p\<lparr>LineStart := b, LineStartNew := nw\<rparr>) h (take i (pending sc0)) =
      below p h (take i (pending sc0)) \<Longrightarrow>
   loopInv p h sc0 skipped st \<Longrightarrow>
   cutLoop (p\<lparr>LineStart := b, LineStartNew := nw\<rparr>) st = cutLoop p st"
proof (induction p st arbitrary: skipped rule: cutLoop.induct)
  case (1 p st)
  note agree = "1.prems"(1)
  note inv = "1.prems"(2)
  let ?p' = "p\<lparr>LineStart := b, LineStartNew := nw\<rparr>"
  from inv have pr: "progress p h sc0 skipped (skipped @ diffCut st) st"
    and L: "pending sc0 = skipped @ diffCut st @ pending (scanner st)"
    by (simp_all add: loopInv_def)
  have tk: "take (length (skipped @ diffCut st)) (pending sc0) = skipped @ diffCut st"
    "length (skipped @ diffCut st) \<le> length (pending sc0)"
    using L by simp_all
  have "below ?p' h (skipped @ diffCut st) = below p h (skipped @ diffCut st)"
    using agree tk by metis
  then have "notYetInRange ?p' st = notYetInRange p st"
    using notYetInRange_below_any[OF pr] by simp
  then have body: "loopBody ?p' st = loopBody p st" by (rule loopBody_start_cong)
  have a: "cutLoop p st =
      (case loopBody p st of
         Inl pn \<Rightarrow> Inl pn
       | Inr (Continue st') \<Rightarrow> cutLoop p st'
       | Inr (Break st') \<Rightarrow> Inr (Broke, st')
       | Inr (Return st') \<Rightarrow> Inr (Returned, st'))"
    by (rule cutLoop.simps)
  have a': "cutLoop ?p' st =
      (case loopBody p st of
         Inl pn \<Rightarrow> Inl pn
       | Inr (Continue st') \<Rightarrow> cutLoop ?p' st'
       | Inr (Break st') \<Rightarrow> Inr (Broke, st')
       | Inr (Return st') \<Rightarrow> Inr (Returned, st'))"
    by (subst cutLoop.simps) (simp add: body)
  show ?case
  proof (cases "loopBody p st")
    case (Inl pn)
    then show ?thesis unfolding a a' by simp
  next
    case (Inr f)
    show ?thesis
    proof (cases f)
      case (Continue s)
      from continue_inv[OF inv Inr[unfolded Continue]] obtain skipped' where
        "loopInv p h sc0 skipped' s" by blast
      from "1.IH"[OF Inr Continue agree this] show ?thesis
        unfolding a a' using Inr Continue by simp
    next
      case (Break s)
      then show ?thesis unfolding a a' using Inr by simp
    next
      case (Return s)
      then show ?thesis unfolding a a' using Inr by simp
    qed
  qed
qed

lemma collectAfter_start [simp]:
  "collectAfter (p\<lparr>LineStart := b, LineStartNew := nw\<rparr>) i sc acc = collectAfter p i sc acc"
proof (induction p i sc acc rule: collectAfter.induct)
  case (1 p i sc acc)
  show ?case
  proof (cases "i < AfterLines p")
    case False
    then show ?thesis by (subst collectAfter.simps, subst (2) collectAfter.simps) simp
  next
    case True
    show ?thesis
    proof (cases "Scan sc")
      case (Pair o1 sc')
      show ?thesis
      proof (cases o1)
        case None
        with Pair True show ?thesis
          by (subst collectAfter.simps, subst (2) collectAfter.simps) simp
      next
        case (Some line)
        show ?thesis
        proof (cases "line = []")
          case e: True
          with Pair Some True show ?thesis
            by (subst collectAfter.simps, subst (2) collectAfter.simps) simp
        next
          case ne: False
          have "collectAfter (p\<lparr>LineStart := b, LineStartNew := nw\<rparr>) i sc acc =
              collectAfter (p\<lparr>LineStart := b, LineStartNew := nw\<rparr>) (i + 1) sc' (acc @ [line])"
            using Pair Some True ne by (subst collectAfter.simps) simp
          moreover have "collectAfter p i sc acc = collectAfter p (i + 1) sc' (acc @ [line])"
            using Pair Some True ne by (subst collectAfter.simps) simp
          ultimately show ?thesis
            using "1.IH"[OF True Pair[symmetric] Some ne] by simp
        qed
      qed
    qed
  qed
qed

lemma finishCut_start [simp]:
  "finishCut (p\<lparr>LineStart := b, LineStartNew := nw\<rparr>) st = finishCut p st"
  by (simp add: finishCut_def cong: sum.case_cong if_cong)


lemma oldCount_take_mono: "i \<le> k \<Longrightarrow> oldCount (take i ls) \<le> oldCount (take k ls)"
proof -
  assume "i \<le> k"
  then have "take k ls = take i ls @ take (k - i) (drop i ls)"
    by (metis le_add_diff_inverse take_add)
  then have "oldCount (take k ls) = oldCount (take i ls) + oldCount (take (k - i) (drop i ls))"
    by simp
  then show ?thesis using oldCount_nonneg[of "take (k - i) (drop i ls)"] by simp
qed

lemma newCount_take_mono: "i \<le> k \<Longrightarrow> newCount (take i ls) \<le> newCount (take k ls)"
proof -
  assume "i \<le> k"
  then have "take k ls = take i ls @ take (k - i) (drop i ls)"
    by (metis le_add_diff_inverse take_add)
  then have "newCount (take k ls) = newCount (take i ls) + newCount (take (k - i) (drop i ls))"
    by simp
  then show ?thesis using newCount_nonneg[of "take (k - i) (drop i ls)"] by simp
qed

text \<open>
  When line \<open>j\<close> of the hunk has old number \<open>a\<close> and new number \<open>b\<close> and the line before it
  counts in both files, the lines before \<open>j\<close> are exactly those below \<open>a\<close> in the old
  numbering and exactly those below \<open>b\<close> in the new numbering.
\<close>

lemma anchor_below:
  assumes j: "j < length ls"
    and old: "OldLine h + oldCount (take j ls) = a"
    and new: "NewLine h + newCount (take j ls) = b"
    and prev: "j = 0 \<or> byte0 (ls ! (j - 1)) = Inr actionUnchanged"
    and i: "i \<le> length ls"
  shows "(OldLine h + oldCount (take i ls) < a) = (i < j)"
    and "(NewLine h + newCount (take i ls) < b) = (i < j)"
proof -
  have both: "OldLine h + oldCount (take i ls) < a \<and> NewLine h + newCount (take i ls) < b"
    if lt: "i < j"
  proof -
    from lt prev have p: "byte0 (ls ! (j - 1)) = Inr actionUnchanged" by simp
    from lt j have "take j ls = take (j - 1) ls @ [ls ! (j - 1)]"
      by (metis Suc_diff_1 less_imp_diff_less not_gr_zero not_less_zero take_Suc_conv_app_nth)
    then have "oldCount (take j ls) = oldCount (take (j - 1) ls) + 1"
      "newCount (take j ls) = newCount (take (j - 1) ls) + 1"
      using p by (simp_all add: oldCount_single newCount_single)
    moreover have "oldCount (take i ls) \<le> oldCount (take (j - 1) ls)"
      "newCount (take i ls) \<le> newCount (take (j - 1) ls)"
      using lt by (simp_all add: oldCount_take_mono newCount_take_mono)
    ultimately show ?thesis using old new by simp
  qed
  have neither: "\<not> OldLine h + oldCount (take i ls) < a \<and> \<not> NewLine h + newCount (take i ls) < b"
    if ge: "\<not> i < j"
  proof -
    from ge have "j \<le> i" by simp
    then have "oldCount (take j ls) \<le> oldCount (take i ls)"
      "newCount (take j ls) \<le> newCount (take i ls)"
      by (simp_all add: oldCount_take_mono newCount_take_mono)
    then show ?thesis using old new by simp
  qed
  show "(OldLine h + oldCount (take i ls) < a) = (i < j)" using both neither by blast
  show "(NewLine h + newCount (take i ls) < b) = (i < j)" using both neither by blast
qed





end
